theory Spec2Isabelle
  imports Complex_Main "HOL-Library.AList"
begin

section \<open>Strings and regular expressions of the version heuristic\<close>

text \<open>
  A JavaScript string is modelled as a \<^typ>\<open>string\<close>: a list of code units below 256
  (the Latin-1 range of UTF-16). The character classes below are the ECMAScript ones
  restricted to that range.
\<close>

text \<open>\<^verbatim>\<open>\d\<close> is \<^verbatim>\<open>[0-9]\<close>, and \<^verbatim>\<open>\w\<close> is \<^verbatim>\<open>[A-Za-z0-9_]\<close>.\<close>

definition isDigit :: "char \<Rightarrow> bool" where
  "isDigit c = (c \<in> set ''0123456789'')"

definition isWord :: "char \<Rightarrow> bool" where
  "isWord c =
     (c \<in> set ''ABCDEFGHIJKLMNOPQRSTUVWXYZabcdefghijklmnopqrstuvwxyz0123456789_'')"

text \<open>
  \<^verbatim>\<open>\s\<close> and the characters \<^verbatim>\<open>trim()\<close> strips: TAB, LF, VT, FF, CR, space and the
  no-break space.
\<close>

definition isSpace :: "char \<Rightarrow> bool" where
  "isSpace c = (c \<in> set [CHR 0x09, CHR 0x0A, CHR 0x0B, CHR 0x0C, CHR 0x0D, CHR 0x20, CHR 0xA0])"

text \<open>
  The letters with an upper and a lower case inside the range: A-Z, and the Latin-1
  capitals \<^verbatim>\<open>0xC0\<close>-\<^verbatim>\<open>0xDE\<close> without the multiplication sign, each 32 below its
  small letter.
\<close>

definition capitals :: string where
  "capitals = ''ABCDEFGHIJKLMNOPQRSTUVWXYZ'' @
     [CHR 0xC0, CHR 0xC1, CHR 0xC2, CHR 0xC3, CHR 0xC4, CHR 0xC5, CHR 0xC6, CHR 0xC7,
      CHR 0xC8, CHR 0xC9, CHR 0xCA, CHR 0xCB, CHR 0xCC, CHR 0xCD, CHR 0xCE, CHR 0xCF,
      CHR 0xD0, CHR 0xD1, CHR 0xD2, CHR 0xD3, CHR 0xD4, CHR 0xD5, CHR 0xD6, CHR 0xD8,
      CHR 0xD9, CHR 0xDA, CHR 0xDB, CHR 0xDC, CHR 0xDD, CHR 0xDE]"

definition smalls :: string where
  "smalls = ''abcdefghijklmnopqrstuvwxyz'' @
     [CHR 0xE0, CHR 0xE1, CHR 0xE2, CHR 0xE3, CHR 0xE4, CHR 0xE5, CHR 0xE6, CHR 0xE7,
      CHR 0xE8, CHR 0xE9, CHR 0xEA, CHR 0xEB, CHR 0xEC, CHR 0xED, CHR 0xEE, CHR 0xEF,
      CHR 0xF0, CHR 0xF1, CHR 0xF2, CHR 0xF3, CHR 0xF4, CHR 0xF5, CHR 0xF6, CHR 0xF8,
      CHR 0xF9, CHR 0xFA, CHR 0xFB, CHR 0xFC, CHR 0xFD, CHR 0xFE]"

text \<open>\<^verbatim>\<open>toLowerCase()\<close>, code unit by code unit.\<close>

definition lowerChar :: "char \<Rightarrow> char" where
  "lowerChar c = (case map_of (zip capitals smalls) c of Some l \<Rightarrow> l | None \<Rightarrow> c)"

definition toLowerCase :: "string \<Rightarrow> string" where
  "toLowerCase s = map lowerChar s"

text \<open>
  The canonicalisation of the \<^verbatim>\<open>/i\<close> flag (without \<^verbatim>\<open>/u\<close>): the upper-case
  code unit, where that is a single code unit of the same range (so
  \<^verbatim>\<open>0xB5\<close>, \<^verbatim>\<open>0xDF\<close> and \<^verbatim>\<open>0xFF\<close> stay).
\<close>

definition canonicalize :: "char \<Rightarrow> char" where
  "canonicalize c = (case map_of (zip smalls capitals) c of Some u \<Rightarrow> u | None \<Rightarrow> c)"

definition trim :: "string \<Rightarrow> string" where
  "trim s = rev (dropWhile isSpace (rev (dropWhile isSpace s)))"

fun startsWith :: "string \<Rightarrow> string \<Rightarrow> bool" where
  "startsWith s [] = True"
| "startsWith [] (p # ps) = False"
| "startsWith (c # cs) (p # ps) = (c = p \<and> startsWith cs ps)"

fun includes_str :: "string \<Rightarrow> string \<Rightarrow> bool" where
  "includes_str [] n = startsWith [] n"
| "includes_str (c # cs) n = (startsWith (c # cs) n \<or> includes_str cs n)"

text \<open>
  The regular expressions of the source use only: a literal character, the classes
  \<^verbatim>\<open>[\d]\<close>, \<^verbatim>\<open>[\w]\<close>, \<^verbatim>\<open>\s\<close>, the greedy \<^verbatim>\<open>+\<close> on a class, and one optional
  non-capturing group. Every pattern is wrapped in one capture group, so that
  \<^verbatim>\<open>match[1]\<close> is the whole match.
\<close>

datatype cclass = Lit char | Digit | Word | Space

datatype node = One cclass | Plus cclass | Opt "node list"

fun cmatch :: "bool \<Rightarrow> cclass \<Rightarrow> char \<Rightarrow> bool" where
  "cmatch i (Lit l) c = (if i then canonicalize c = canonicalize l else c = l)"
| "cmatch i Digit c = isDigit c"
| "cmatch i Word c = isWord c"
| "cmatch i Space c = isSpace c"

text \<open>
  \<open>backtrack f k\<close> is the greedy quantifier: it tries to continue after \<open>k\<close>
  repetitions, then after \<open>k - 1\<close>, down to one.
\<close>

fun backtrack :: "(nat \<Rightarrow> nat option) \<Rightarrow> nat \<Rightarrow> nat option" where
  "backtrack f 0 = None"
| "backtrack f (Suc k) =
     (case f (Suc k) of Some n \<Rightarrow> Some (Suc k + n) | None \<Rightarrow> backtrack f k)"

text \<open>
  \<open>rmatch i p s\<close> is the backtracking matcher anchored at the start of \<open>s\<close>, with
  ignore-case flag \<open>i\<close>: the length of the match the engine finds first, if any.
\<close>

function rmatch :: "bool \<Rightarrow> node list \<Rightarrow> string \<Rightarrow> nat option" where
  "rmatch i [] s = Some 0"
| "rmatch i (One c # r) [] = None"
| "rmatch i (One c # r) (x # xs) =
     (if cmatch i c x then map_option Suc (rmatch i r xs) else None)"
| "rmatch i (Plus c # r) s =
     backtrack (\<lambda>k. rmatch i r (drop k s)) (length (takeWhile (cmatch i c) s))"
| "rmatch i (Opt g # r) s =
     (case rmatch i (g @ r) s of Some n \<Rightarrow> Some n | None \<Rightarrow> rmatch i r s)"
  by pat_completeness auto
termination
  by (relation "measure (\<lambda>(i, p, s). size_list size p)") auto

text \<open>\<^verbatim>\<open>text.match(pattern)\<close> without the global flag: the leftmost match.\<close>

fun rsearch :: "bool \<Rightarrow> node list \<Rightarrow> string \<Rightarrow> string option" where
  "rsearch i p [] = (case rmatch i p [] of Some n \<Rightarrow> Some [] | None \<Rightarrow> None)"
| "rsearch i p (x # xs) =
     (case rmatch i p (x # xs) of Some n \<Rightarrow> Some (take n (x # xs)) | None \<Rightarrow> rsearch i p xs)"

definition lits :: "string \<Rightarrow> node list" where
  "lits s = map (\<lambda>c. One (Lit c)) s"

text \<open>\<^verbatim>\<open>v[\d]+\.[\d]+\.[\d]+\<close> without the leading letter, and \<^verbatim>\<open>-[\w]+\<close>.\<close>

definition semver :: "node list" where
  "semver = [Plus Digit, One (Lit CHR ''.''), Plus Digit, One (Lit CHR ''.''), Plus Digit]"

definition build :: "node list" where
  "build = [One (Lit CHR ''-''), Plus Word]"

definition versionPatterns :: "(node list \<times> bool) list" where
  "versionPatterns =
    [(lits ''subconverter'' @ [Plus Space] @ lits ''v'' @ semver @ build
        @ [Opt (Plus Space # lits ''backend'')], True),
     (lits ''v'' @ semver @ build, True),
     (lits ''subconverter'' @ [Plus Space] @ lits ''v'' @ semver, True),
     (semver @ build, False),
     (semver, False),
     (lits ''subconverter'', True)]"

text \<open>The \<^verbatim>\<open>for (const pattern of versionPatterns)\<close> loop, up to the first match.\<close>

fun firstMatch :: "(node list \<times> bool) list \<Rightarrow> string \<Rightarrow> string option" where
  "firstMatch [] text = None"
| "firstMatch ((p, i) # ps) text =
     (case rsearch i p text of Some m \<Rightarrow> Some m | None \<Rightarrow> firstMatch ps text)"

text \<open>The normalisation of a match, in the source's order of cases.\<close>

definition unify :: "string \<Rightarrow> string" where
  "unify version =
     (if includes_str (toLowerCase version) ''subconverter'' then version
      else if startsWith version ''v'' then ''subconverter '' @ version
      else if (case version of [] \<Rightarrow> False | c # _ \<Rightarrow> isDigit c) then ''subconverter v'' @ version
      else version)"

text \<open>\<^verbatim>\<open>text.split(/\s+/)\<close>, with the token read so far as accumulator.\<close>

function splitWs :: "string \<Rightarrow> string \<Rightarrow> string list" where
  "splitWs cur [] = [cur]"
| "splitWs cur (c # cs) =
     (if isSpace c then cur # splitWs [] (dropWhile isSpace cs) else splitWs (cur @ [c]) cs)"
  by pat_completeness auto
termination
  by (relation "measure (\<lambda>(cur, s). length s)")
     (auto simp: length_dropWhile_le less_Suc_eq_le)

text \<open>The loop over the words of a long text.\<close>

definition qualifies :: "string \<Rightarrow> bool" where
  "qualifies w =
     ((CHR ''v'' \<in> set w \<or> rsearch False [Plus Digit, One (Lit CHR ''.''), Plus Digit] w \<noteq> None)
      \<and> length w \<le> 30)"

fun scanWords :: "string list \<Rightarrow> string" where
  "scanWords [] = ''subconverter''"
| "scanWords (w # ws) = (if qualifies w then ''subconverter '' @ w else scanWords ws)"

text \<open>The values a caller can pass as \<^verbatim>\<open>text\<close>.\<close>

datatype js_value = JUndefined | JNull | JBool bool | JNumber int | JObject | JString string

fun extractVersionFromText :: "js_value \<Rightarrow> string" where
  "extractVersionFromText (JString raw) =
     (if raw = [] then ''subconverter''
      else let text = trim raw in
        case firstMatch versionPatterns text of
          Some m \<Rightarrow> unify (trim m)
        | None \<Rightarrow>
            if length text \<le> 50 then (if text = [] then ''subconverter'' else text)
            else scanWords (splitWs [] text))"
| "extractVersionFromText v = ''subconverter''"

section \<open>The probes of \<^verbatim>\<open>PriorityHealthCheck\<close>\<close>

text \<open>
  An exception is a value with a name and a message. The version of a result is either
  the source's four-character non-ASCII literal for an unknown version, or a text.
\<close>

record js_error =
  err_name :: string
  err_message :: string

datatype version_text = UnknownVersion | VersionText string

datatype priority = High | Normal

record health_result =
  healthy :: bool
  responseTime :: "int option"
  responseTimeScore :: real
  status :: int
  version :: version_text
  priority :: priority
  error :: "string option"
  timestamp :: int

text \<open>
  What the network does to one probe: \<^verbatim>\<open>fetch\<close> rejects (a connection failure, or
  the abort of the timeout guard), or it answers with a status and a body whose
  \<^verbatim>\<open>text()\<close> either yields a string or rejects.
\<close>

datatype body_read = BodyText string | BodyFails js_error

datatype fetch_outcome = FetchRejects js_error | Responds int body_read

text \<open>
  The \<^verbatim>\<open>try\<close> block of the check function of \<^verbatim>\<open>priorityCheck\<close>. The scorer
  \<^verbatim>\<open>calculateResponseTimeScore\<close> is imported from the module \<^verbatim>\<open>utils.js\<close> and is
  a parameter; \<open>rt\<close> is the measured response time and \<open>ts\<close> the instant of the
  timestamp.
\<close>

definition priorityTry :: "(int \<Rightarrow> real) \<Rightarrow> fetch_outcome \<Rightarrow> int \<Rightarrow> int \<Rightarrow> js_error + health_result" where
  "priorityTry score out rt ts =
     (case out of
        FetchRejects e \<Rightarrow> Inl e
      | Responds st body \<Rightarrow>
          if st = 200 then
            (case body of
               BodyText text \<Rightarrow>
                 Inr \<lparr>healthy = True, responseTime = Some rt, responseTimeScore = score rt,
                      status = st, version = VersionText (extractVersionFromText (JString text)),
                      priority = High, error = None, timestamp = ts\<rparr>
             | BodyFails textError \<Rightarrow>
                 Inr \<lparr>healthy = True, responseTime = Some rt, responseTimeScore = score rt,
                      status = st, version = VersionText ''subconverter'',
                      priority = High, error = None, timestamp = ts\<rparr>)
          else
            Inr \<lparr>healthy = False, responseTime = Some rt, responseTimeScore = 0,
                 status = st, version = UnknownVersion,
                 priority = High, error = None, timestamp = ts\<rparr>)"

text \<open>The check function of \<^verbatim>\<open>priorityCheck\<close>: the \<^verbatim>\<open>try\<close> block and its
  \<^verbatim>\<open>catch (error)\<close>. \<open>Inl\<close> would be an exception leaving the function.\<close>

definition priorityCheckFn :: "(int \<Rightarrow> real) \<Rightarrow> fetch_outcome \<Rightarrow> int \<Rightarrow> int \<Rightarrow> js_error + health_result" where
  "priorityCheckFn score out rt ts =
     (case priorityTry score out rt ts of
        Inr r \<Rightarrow> Inr r
      | Inl e \<Rightarrow>
          Inr \<lparr>healthy = False, responseTime = None, responseTimeScore = 0,
               status = 0, version = UnknownVersion,
               priority = High, error = Some (err_name e), timestamp = ts\<rparr>)"

text \<open>The \<^verbatim>\<open>try\<close> block of the check function of \<^verbatim>\<open>fullCheck\<close>.\<close>

definition fullTry :: "(int \<Rightarrow> real) \<Rightarrow> fetch_outcome \<Rightarrow> int \<Rightarrow> int \<Rightarrow> js_error + health_result" where
  "fullTry score out rt ts =
     (case out of
        FetchRejects e \<Rightarrow> Inl e
      | Responds st body \<Rightarrow>
          if st = 200 then
            (case body of
               BodyText text \<Rightarrow>
                 Inr \<lparr>healthy = (includes_str (toLowerCase text) ''subconverter'' \<or> st = 200),
                      responseTime = Some rt, responseTimeScore = score rt,
                      status = st, version = VersionText (extractVersionFromText (JString text)),
                      priority = Normal, error = None, timestamp = ts\<rparr>
             | BodyFails textError \<Rightarrow>
                 Inr \<lparr>healthy = False, responseTime = Some rt, responseTimeScore = score rt,
                      status = st, version = UnknownVersion,
                      priority = Normal, error = None, timestamp = ts\<rparr>)
          else
            Inr \<lparr>healthy = False, responseTime = Some rt, responseTimeScore = 0,
                 status = st, version = UnknownVersion,
                 priority = Normal, error = None, timestamp = ts\<rparr>)"

definition fullCheckFn :: "(int \<Rightarrow> real) \<Rightarrow> fetch_outcome \<Rightarrow> int \<Rightarrow> int \<Rightarrow> js_error + health_result" where
  "fullCheckFn score out rt ts =
     (case fullTry score out rt ts of
        Inr r \<Rightarrow> Inr r
      | Inl e \<Rightarrow>
          Inr \<lparr>healthy = False, responseTime = None, responseTimeScore = 0,
               status = 0, version = UnknownVersion,
               priority = Normal, error = Some (err_name e), timestamp = ts\<rparr>)"

section \<open>The scheduler \<^verbatim>\<open>HealthCheckConcurrencyController\<close>\<close>

text \<open>
  The controller runs on a single-threaded event loop. Its state is the object's fields
  (\<open>maxConcurrent\<close>, \<open>activeChecks\<close>, \<open>queue\<close>, \<open>stats\<close>) together with what the event
  loop holds for it: the check functions that were invoked and have not settled
  (\<open>executing\<close>), the pending 100 ms cleanup timers (\<open>timers\<close>, with their due time), and
  the callers' promises that were resolved or rejected (\<open>settled\<close>).

  Every clock reading of one synchronous turn is the same instant \<open>now\<close>. The key
  \<^verbatim>\<open>`${url}-${Date.now()}`\<close> of a task is the pair of its two parts. The closure
  \<^verbatim>\<open>task\<close> of one \<^verbatim>\<open>scheduleCheck\<close> call is a record of what it captures; \<open>t_id\<close>
  is the identity of the closure and of the promise returned to that caller.
\<close>

datatype task_status = Running | Completed | Failed

record active_entry =
  a_url :: "string option"
  a_requestId :: "string option"
  a_startTime :: "int option"
  a_status :: task_status
  a_endTime :: "int option"
  a_success :: "bool option"
  a_error :: "string option"

record task =
  t_id :: nat
  t_key :: "string \<times> int"
  t_url :: string
  t_requestId :: string

record queue_entry =
  q_task :: task
  q_url :: string
  q_requestId :: string
  addedTime :: int

record stats =
  totalStarted :: nat
  totalCompleted :: nat
  maxActive :: nat
  errors :: nat
  successes :: nat
  lastReset :: int
  lastResetTime :: int

datatype 'r outcome = Resolved 'r | Rejected js_error

record 'r world =
  maxConcurrent :: nat
  activeChecks :: "((string \<times> int) \<times> active_entry) list"
  queue :: "queue_entry list"
  stats :: stats
  executing :: "task list"
  timers :: "(task \<times> int) list"
  settled :: "(nat \<times> 'r outcome) list"
  next_id :: nat

definition freshStats :: "int \<Rightarrow> stats" where
  "freshStats now =
     \<lparr>totalStarted = 0, totalCompleted = 0, maxActive = 0, errors = 0, successes = 0,
      lastReset = now, lastResetTime = now\<rparr>"

text \<open>The constructor: \<^verbatim>\<open>config || { maxConcurrent: 5 }\<close>.\<close>

definition newController :: "nat option \<Rightarrow> int \<Rightarrow> 'r world" where
  "newController config now =
     \<lparr>maxConcurrent = (case config of None \<Rightarrow> 5 | Some n \<Rightarrow> n),
      activeChecks = [], queue = [], stats = freshStats now,
      executing = [], timers = [], settled = [], next_id = 0\<rparr>"

definition reset :: "int \<Rightarrow> 'r world \<Rightarrow> 'r world" where
  "reset now w = w\<lparr>activeChecks := [], queue := [], stats := freshStats now\<rparr>"

text \<open>
  The closure \<^verbatim>\<open>task\<close> up to its \<^verbatim>\<open>await checkFn(url, requestId)\<close>: it enters
  the active map under its key, counts the start, and invokes the check function.
\<close>

definition runTask :: "task \<Rightarrow> int \<Rightarrow> 'r world \<Rightarrow> 'r world" where
  "runTask t now w =
     (let ac = AList.update (t_key t)
                 \<lparr>a_url = Some (t_url t), a_requestId = Some (t_requestId t),
                  a_startTime = Some now, a_status = Running, a_endTime = None,
                  a_success = None, a_error = None\<rparr> (activeChecks w);
          st = stats w
      in w\<lparr>activeChecks := ac,
           stats := st\<lparr>totalStarted := totalStarted st + 1,
                       maxActive := max (maxActive st) (length ac)\<rparr>,
           executing := executing w @ [t]\<rparr>)"

text \<open>
  The closure \<^verbatim>\<open>task\<close> from the moment its check function settles: the
  \<^verbatim>\<open>try\<close>/\<^verbatim>\<open>catch\<close> branch, the \<^verbatim>\<open>finally\<close> that arms the 100 ms timer,
  and the settlement of the caller's promise with the same outcome. The spread
  \<^verbatim>\<open>...this.activeChecks.get(taskKey)\<close> copies nothing when the key is absent.
\<close>

definition settleTask :: "task \<Rightarrow> 'r outcome \<Rightarrow> int \<Rightarrow> 'r world \<Rightarrow> 'r world" where
  "settleTask t out now w =
     (let prev = map_of (activeChecks w) (t_key t);
          base = \<lparr>a_url = Option.bind prev a_url, a_requestId = Option.bind prev a_requestId,
                  a_startTime = Option.bind prev a_startTime, a_status = Running,
                  a_endTime = Option.bind prev a_endTime, a_success = Option.bind prev a_success,
                  a_error = Option.bind prev a_error\<rparr>;
          st = stats w
      in case out of
           Resolved result \<Rightarrow>
             w\<lparr>stats := st\<lparr>successes := successes st + 1\<rparr>,
               activeChecks := AList.update (t_key t)
                 (base\<lparr>a_status := Completed, a_endTime := Some now, a_success := Some True\<rparr>)
                 (activeChecks w),
               executing := remove1 t (executing w),
               timers := timers w @ [(t, now + 100)],
               settled := settled w @ [(t_id t, out)]\<rparr>
         | Rejected e \<Rightarrow>
             w\<lparr>stats := st\<lparr>errors := errors st + 1\<rparr>,
               activeChecks := AList.update (t_key t)
                 (base\<lparr>a_status := Failed, a_endTime := Some now,
                       a_error := Some (err_message e), a_success := Some False\<rparr>)
                 (activeChecks w),
               executing := remove1 t (executing w),
               timers := timers w @ [(t, now + 100)],
               settled := settled w @ [(t_id t, out)]\<rparr>)"

text \<open>The \<^verbatim>\<open>while\<close> loop of \<^verbatim>\<open>processQueue\<close>.\<close>

function drain :: "int \<Rightarrow> 'r world \<Rightarrow> 'r world" where
  "drain now w =
     (case queue w of
        [] \<Rightarrow> w
      | item # rest \<Rightarrow>
          if length (activeChecks w) < maxConcurrent w
          then drain now (runTask (q_task item) now (w\<lparr>queue := rest\<rparr>))
          else w)"
  by pat_completeness auto
termination
  by (relation "measure (\<lambda>(now, w). length (queue w))") (auto simp: runTask_def Let_def)

declare drain.simps [simp del]

definition processQueue :: "int \<Rightarrow> 'r world \<Rightarrow> 'r world" where
  "processQueue now w =
     drain now (w\<lparr>queue := filter (\<lambda>item. now - addedTime item < 30000) (queue w)\<rparr>)"

text \<open>The callback of the 100 ms timer.\<close>

definition cleanup :: "task \<Rightarrow> int \<Rightarrow> 'r world \<Rightarrow> 'r world" where
  "cleanup t now w =
     processQueue now
       (w\<lparr>activeChecks := AList.delete (t_key t) (activeChecks w),
          stats := (stats w)\<lparr>totalCompleted := totalCompleted (stats w) + 1\<rparr>\<rparr>)"

text \<open>\<^verbatim>\<open>scheduleCheck\<close> after its reset test: the closure is built, then run or queued.\<close>

definition admit :: "string \<Rightarrow> string \<Rightarrow> int \<Rightarrow> 'r world \<Rightarrow> 'r world" where
  "admit url requestId now w =
     (let t = \<lparr>t_id = next_id w, t_key = (url, now), t_url = url, t_requestId = requestId\<rparr>;
          w1 = w\<lparr>next_id := next_id w + 1\<rparr>
      in if length (activeChecks w1) < maxConcurrent w1 then runTask t now w1
         else w1\<lparr>queue := queue w1 @
                [\<lparr>q_task = t, q_url = url, q_requestId = requestId, addedTime = now\<rparr>]\<rparr>)"

definition scheduleCheck :: "string \<Rightarrow> string \<Rightarrow> int \<Rightarrow> 'r world \<Rightarrow> 'r world" where
  "scheduleCheck url requestId now w =
     admit url requestId now
       (if now - lastResetTime (stats w) > 5 * 60 * 1000 then reset now w else w)"

text \<open>
  The turns of the event loop that touch the controller: a call of
  \<^verbatim>\<open>scheduleCheck\<close>, the settling of an executing check function, and the firing of
  a due cleanup timer. A turn that names no executing task, or no due timer, does
  nothing.
\<close>

datatype 'r event =
    Call string string int
  | Settle nat "'r outcome" int
  | Timer nat int

fun step :: "'r event \<Rightarrow> 'r world \<Rightarrow> 'r world" where
  "step (Call url requestId now) w = scheduleCheck url requestId now w"
| "step (Settle i out now) w =
     (case find (\<lambda>t. t_id t = i) (executing w) of
        None \<Rightarrow> w
      | Some t \<Rightarrow> settleTask t out now w)"
| "step (Timer i now) w =
     (case find (\<lambda>(t, due). t_id t = i \<and> due \<le> now) (timers w) of
        None \<Rightarrow> w
      | Some (t, due) \<Rightarrow> cleanup t now (w\<lparr>timers := remove1 (t, due) (timers w)\<rparr>))"

definition run :: "'r event list \<Rightarrow> 'r world \<Rightarrow> 'r world" where
  "run evs w = fold step evs w"

subsection \<open>Identities of callers, and the shape of a drain\<close>

text \<open>
  The identities the controller still holds: of the queued closures, of the executing
  ones, and of the settled promises. In a world built by the constructor and the turns
  of the event loop they are pairwise different and below \<open>next_id\<close> (\<open>unique_ids\<close>). An
  identity is \<open>absent\<close> when it has been given out and the controller holds it nowhere.
\<close>

definition qid :: "queue_entry \<Rightarrow> nat" where
  "qid e = t_id (q_task e)"

definition ids :: "'r world \<Rightarrow> nat list" where
  "ids w = map qid (queue w) @ map t_id (executing w) @ map fst (settled w)"

definition unique_ids :: "'r world \<Rightarrow> bool" where
  "unique_ids w = (distinct (ids w) \<and> list_all (\<lambda>i. i < next_id w) (ids w))"

definition absent :: "nat \<Rightarrow> 'r world \<Rightarrow> bool" where
  "absent i w = (i < next_id w \<and> i \<notin> set (ids w))"

text \<open>
  \<open>drained k w w'\<close>: from \<open>w\<close> to \<open>w'\<close> the first \<open>k\<close> queue entries were taken in order
  and their tasks invoked, nothing was settled, and the loop stopped on an empty queue
  or a full active map.
\<close>

definition drained :: "nat \<Rightarrow> 'r world \<Rightarrow> 'r world \<Rightarrow> bool" where
  "drained k w w' =
     (queue w' = drop k (queue w)
      \<and> executing w' = executing w @ map q_task (take k (queue w))
      \<and> settled w' = settled w \<and> timers w' = timers w \<and> next_id w' = next_id w
      \<and> maxConcurrent w' = maxConcurrent w
      \<and> (queue w' = [] \<or> \<not> length (activeChecks w') < maxConcurrent w'))"

text \<open>
  \<open>after_starts now items w\<close>: the tasks of \<open>items\<close> were invoked in order, starting from
  \<open>w\<close>. \<open>drain_exact k now w w'\<close>: the loop took exactly the first \<open>k\<close> entries; each of
  them found the active map below \<open>maxConcurrent\<close>, and the loop stopped because the
  queue was used up or the active map was full. \<open>younger now q\<close> are the entries of \<open>q\<close>
  that \<^verbatim>\<open>processQueue\<close> keeps.
\<close>

definition after_starts :: "int \<Rightarrow> queue_entry list \<Rightarrow> 'r world \<Rightarrow> 'r world" where
  "after_starts now items w = fold (\<lambda>item v. runTask (q_task item) now v) items w"

definition drain_exact :: "nat \<Rightarrow> int \<Rightarrow> 'r world \<Rightarrow> 'r world \<Rightarrow> bool" where
  "drain_exact k now w w' =
     (k \<le> length (queue w)
      \<and> w' = (after_starts now (take k (queue w)) w)\<lparr>queue := drop k (queue w)\<rparr>
      \<and> (\<forall>j<k. length (activeChecks (after_starts now (take j (queue w)) w)) < maxConcurrent w)
      \<and> (k = length (queue w) \<or> \<not> length (activeChecks w') < maxConcurrent w))"

abbreviation younger :: "int \<Rightarrow> queue_entry list \<Rightarrow> queue_entry list" where
  "younger now q \<equiv> filter (\<lambda>item. now - addedTime item < 30000) q"

subsection \<open>Runs without a reset\<close>

text \<open>
  The keys of the tasks the event loop still knows: queued, executing, or waiting for
  their cleanup timer. \<open>slots_ok\<close>: these keys are pairwise different, every executing
  task has its entry in the active map, and the active map is not larger than
  \<open>maxConcurrent\<close>. \<open>balanced\<close>: every started task is executing, waits for its
  cleanup, or was counted as completed. A turn is calm when it is not a call that
  resets and not a call whose key is already in use.
\<close>

definition task_keys :: "'r world \<Rightarrow> (string \<times> int) list" where
  "task_keys w = map (\<lambda>e. t_key (q_task e)) (queue w) @ map t_key (executing w)
                   @ map (\<lambda>p. t_key (fst p)) (timers w)"

definition slots_ok :: "'r world \<Rightarrow> bool" where
  "slots_ok w =
     (distinct (task_keys w)
      \<and> set (map t_key (executing w)) \<subseteq> set (map fst (activeChecks w))
      \<and> length (activeChecks w) \<le> maxConcurrent w)"

definition balanced :: "'r world \<Rightarrow> bool" where
  "balanced w =
     (totalStarted (stats w) = totalCompleted (stats w) + length (timers w) + length (executing w))"

definition calm_turn :: "'r event \<Rightarrow> 'r world \<Rightarrow> bool" where
  "calm_turn ev w =
     (case ev of
        Call url requestId now \<Rightarrow>
          now - lastResetTime (stats w) \<le> 5 * 60 * 1000 \<and> (url, now) \<notin> set (task_keys w)
      | _ \<Rightarrow> True)"

fun calm :: "'r event list \<Rightarrow> 'r world \<Rightarrow> bool" where
  "calm [] w = True"
| "calm (ev # evs) w = (calm_turn ev w \<and> calm evs (step ev w))"

subsection \<open>Concrete runs\<close>

text \<open>
  A controller with one slot that has completed one task and runs a second, 150 ms
  after its construction.
\<close>

definition used :: "unit world" where
  "used = run [Call ''a'' ''r1'' 10, Call ''b'' ''r2'' 20, Settle 0 (Resolved ()) 50, Timer 0 150]
            (newController (Some 1) 0)"

text \<open>
  A controller with one slot: \<open>a\<close> runs, \<open>b\<close> is queued at 5 ms and \<open>c\<close> at 29000 ms,
  \<open>a\<close> settles at 100 ms. \<open>before_drain\<close> is the world in which the timer callback of
  \<open>a\<close>, fired at 30010 ms, calls \<^verbatim>\<open>processQueue\<close>; \<open>stale\<close> is the queue entry of \<open>b\<close>.
\<close>

definition waiting :: "unit world" where
  "waiting = run [Call ''a'' ''r1'' 0, Call ''b'' ''r2'' 5, Call ''c'' ''r3'' 29000,
                  Settle 0 (Resolved ()) 100] (newController (Some 1) 0)"

definition before_drain :: "unit world" where
  "before_drain =
     waiting\<lparr>timers := [],
             activeChecks := AList.delete (''a'', 0) (activeChecks waiting),
             stats := (stats waiting)\<lparr>totalCompleted := totalCompleted (stats waiting) + 1\<rparr>\<rparr>"

definition stale :: queue_entry where
  "stale = \<lparr>q_task = \<lparr>t_id = 1, t_key = (''b'', 5), t_url = ''b'', t_requestId = ''r2''\<rparr>,
            q_url = ''b'', q_requestId = ''r2'', addedTime = 5\<rparr>"

text \<open>
  A controller with one slot: \<open>a\<close> runs, \<open>b\<close>, \<open>c\<close> and \<open>d\<close> are queued, \<open>a\<close> settles and
  its cleanup timer fires at 200 ms.
\<close>

definition crowded :: "unit event list" where
  "crowded =
     [Call ''a'' ''r1'' 0, Call ''b'' ''r2'' 1, Call ''c'' ''r3'' 2, Call ''d'' ''r4'' 3,
      Settle 0 (Resolved ()) 50, Timer 0 200]"

text \<open>
  Five calls in the last millisecond of the reset window of a controller built at
  time 0 with five slots, and a sixth call one millisecond later.
\<close>

definition overload :: "unit event list" where
  "overload =
     [Call ''u1'' ''r1'' 300000, Call ''u2'' ''r2'' 300000, Call ''u3'' ''r3'' 300000,
      Call ''u4'' ''r4'' 300000, Call ''u5'' ''r5'' 300000, Call ''u6'' ''r6'' 300001]"

text \<open>
  A call in the last millisecond of the reset window, a call one millisecond later,
  then both check functions settle and both cleanup timers fire.
\<close>

definition crossing :: "unit event list" where
  "crossing =
     [Call ''a'' ''r1'' 300000, Call ''b'' ''r2'' 300001,
      Settle 0 (Resolved ()) 300050, Settle 1 (Resolved ()) 300060,
      Timer 0 300150, Timer 1 300160]"

text \<open>Three calls for the same target within one millisecond, on two slots.\<close>

definition same_key :: "unit event list" where
  "same_key = [Call ''u'' ''r1'' 7, Call ''u'' ''r2'' 7, Call ''u'' ''r3'' 7]"

section \<open>The notifier \<^verbatim>\<open>ResilientTelegramNotifier\<close>\<close>

datatype notification_type = Request | Health_change | Error

text \<open>
  The payload \<^verbatim>\<open>notificationData\<close>: its \<^verbatim>\<open>type\<close> and its other fields. A field
  value is a string, a number, a boolean, \<^verbatim>\<open>null\<close>, a BigInt, or a reference back
  to the payload object itself (a cycle).
\<close>

datatype payload_value = PString string | PNumber int | PBool bool | PNull | PBigInt int | PCycle

record notification =
  n_type :: notification_type
  n_fields :: "(string \<times> payload_value) list"

text \<open>
  The environment of the notifier: the two credentials (absent, or a string), and for
  each notification type whether its setting, read through the imported
  \<^verbatim>\<open>getConfig\<close>, is truthy.
\<close>

record notifier_env =
  TG_BOT_TOKEN :: "string option"
  TG_CHAT_ID :: "string option"
  notificationSettings :: "notification_type \<Rightarrow> bool"

record notifier =
  env :: notifier_env
  maxRetries :: nat
  retryDelay :: nat
  fallbackEnabled :: bool

definition newNotifier :: "notifier_env \<Rightarrow> notifier" where
  "newNotifier e = \<lparr>env = e, maxRetries = 3, retryDelay = 1000, fallbackEnabled = True\<rparr>"

text \<open>\<^verbatim>\<open>!x\<close> on a credential: absent or the empty string.\<close>

definition falsy :: "string option \<Rightarrow> bool" where
  "falsy x = (x = None \<or> x = Some [])"

text \<open>
  What one delivery attempt meets, in the order of the \<^verbatim>\<open>try\<close> block: the
  formatter throws, \<^verbatim>\<open>fetch\<close> rejects, the response is not ok, its JSON cannot be
  read, the API answers with \<^verbatim>\<open>ok\<close> falsy, or the API accepts.
\<close>

datatype attempt_result =
    FormatThrows string
  | FetchThrows string
  | HttpNotOk int string
  | JsonThrows string
  | ApiRejects "string option"
  | ApiOk

text \<open>The error an attempt raises; its message is the rendering of this value.\<close>

datatype send_error = Thrown string | HttpError int string | ApiError "string option"

fun attemptError :: "attempt_result \<Rightarrow> send_error option" where
  "attemptError (FormatThrows m) = Some (Thrown m)"
| "attemptError (FetchThrows m) = Some (Thrown m)"
| "attemptError (HttpNotOk st txt) = Some (HttpError st txt)"
| "attemptError (JsonThrows m) = Some (Thrown m)"
| "attemptError (ApiRejects d) = Some (ApiError d)"
| "attemptError ApiOk = None"

text \<open>
  \<^verbatim>\<open>JSON.stringify(notificationData, null, 2)\<close> throws a \<^verbatim>\<open>TypeError\<close> on a BigInt
  and on a cyclic structure.
\<close>

datatype js_exception = TypeError

fun unserialisable :: "payload_value \<Rightarrow> bool" where
  "unserialisable (PBigInt n) = True"
| "unserialisable PCycle = True"
| "unserialisable v = False"

definition stringifyThrows :: "notification \<Rightarrow> bool" where
  "stringifyThrows d = list_ex (\<lambda>(name, v). unserialisable v) (n_fields d)"

text \<open>
  \<^verbatim>\<open>fallbackNotification\<close>: it logs the stringified payload and returns; it has no
  \<^verbatim>\<open>try\<close>, so the exception of \<^verbatim>\<open>JSON.stringify\<close> leaves it.
\<close>

definition fallbackNotification :: "notification \<Rightarrow> js_exception + unit" where
  "fallbackNotification d = (if stringifyThrows d then Inl TypeError else Inr ())"

text \<open>The effects of \<^verbatim>\<open>sendNotification\<close>, in the order they happen.\<close>

datatype effect =
    Attempt nat
  | Sleep nat
  | FallbackNotification
  | SaveNotificationToDB bool

datatype send_outcome =
    ConfigIncomplete
  | TypeDisabled
  | Sent nat
  | NotSent nat send_error bool
  | NoResult

text \<open>
  The \<^verbatim>\<open>for (let attempt = 1; attempt <= this.maxRetries; attempt++)\<close> loop from
  \<open>attempt\<close> on; \<open>net k\<close> is what attempt \<open>k\<close> meets. \<open>Inr NoResult\<close> is the loop ending
  without a \<^verbatim>\<open>return\<close>; \<open>Inl\<close> is an exception that leaves \<^verbatim>\<open>sendNotification\<close>
  (its promise rejects). The fallback is awaited inside the \<^verbatim>\<open>catch\<close> block, so its
  exception is not caught, and the save that follows it is not reached.
  \<^verbatim>\<open>saveNotificationToDB\<close> catches every exception of its own.
\<close>

function attempts :: "notifier \<Rightarrow> notification \<Rightarrow> (nat \<Rightarrow> attempt_result) \<Rightarrow> nat
    \<Rightarrow> (js_exception + send_outcome) \<times> effect list" where
  "attempts n d net attempt =
     (if attempt \<le> maxRetries n then
        (case attemptError (net attempt) of
           None \<Rightarrow> (Inr (Sent attempt), [Attempt attempt, SaveNotificationToDB True])
         | Some e \<Rightarrow>
             if attempt < maxRetries n then
               (case attempts n d net (attempt + 1) of
                  (out, tr) \<Rightarrow>
                    (out, Attempt attempt # Sleep (retryDelay n * 2 ^ (attempt - 1)) # tr))
             else if fallbackEnabled n then
               (case fallbackNotification d of
                  Inl exn \<Rightarrow> (Inl exn, [Attempt attempt, FallbackNotification])
                | Inr _ \<Rightarrow>
                    (Inr (NotSent attempt e (fallbackEnabled n)),
                     [Attempt attempt, FallbackNotification, SaveNotificationToDB False]))
             else
               (Inr (NotSent attempt e (fallbackEnabled n)),
                [Attempt attempt, SaveNotificationToDB False]))
      else (Inr NoResult, []))"
  by pat_completeness auto
termination
  by (relation "measure (\<lambda>(n, d, net, attempt). maxRetries n - attempt)") auto

declare attempts.simps [simp del]

definition sendNotification :: "notifier \<Rightarrow> notification \<Rightarrow> (nat \<Rightarrow> attempt_result)
    \<Rightarrow> (js_exception + send_outcome) \<times> effect list" where
  "sendNotification n d net =
     (if falsy (TG_BOT_TOKEN (env n)) \<or> falsy (TG_CHAT_ID (env n)) then (Inr ConfigIncomplete, [])
      else if \<not> notificationSettings (env n) (n_type d) then (Inr TypeDisabled, [])
      else attempts n d net 1)"

text \<open>
  Two payloads of type \<^verbatim>\<open>error\<close> that differ in one field, a response time given
  as a BigInt or as a number; and an environment with both credentials and every
  notification type enabled.
\<close>

definition bigint_payload :: notification where
  "bigint_payload = \<lparr>n_type = Error, n_fields = [(''backend_url'', PString ''https://b1.example''),
                                                  (''response_time'', PBigInt 1500)]\<rparr>"

definition plain_payload :: notification where
  "plain_payload = \<lparr>n_type = Error, n_fields = [(''backend_url'', PString ''https://b1.example''),
                                                 (''response_time'', PNumber 1500)]\<rparr>"

definition live_env :: notifier_env where
  "live_env = \<lparr>TG_BOT_TOKEN = Some ''token'', TG_CHAT_ID = Some ''chat'',
               notificationSettings = (\<lambda>ty. True)\<rparr>"

section \<open>Properties of the version heuristic\<close>

subsection \<open>Trimming and matches\<close>

lemma trim_Nil_iff: "trim s = [] \<longleftrightarrow> (\<forall>c \<in> set s. isSpace c)"
proof
  assume "trim s = []"
  then have a: "\<forall>c \<in> set (dropWhile isSpace s). isSpace c"
    by (simp add: trim_def)
  show "\<forall>c \<in> set s. isSpace c"
  proof (cases "dropWhile isSpace s")
    case Nil
    then show ?thesis by simp
  next
    case (Cons x xs)
    then have "\<not> isSpace x" using hd_dropWhile [of isSpace s] by simp
    with a Cons show ?thesis by simp
  qed
next
  assume "\<forall>c \<in> set s. isSpace c"
  then have "dropWhile isSpace s = []" by (simp only: dropWhile_eq_Nil_conv)
  then show "trim s = []" by (simp only: trim_def rev.simps dropWhile.simps)
qed

lemma trim_nonempty: "m \<noteq> [] \<Longrightarrow> \<not> isSpace (hd m) \<Longrightarrow> trim m \<noteq> []"
  by (cases m) (auto simp: trim_Nil_iff)

lemma backtrack_Some: "backtrack f k = Some n \<Longrightarrow> 0 < k \<and> 0 < n"
  by (induction k) (auto split: option.splits)

lemma rmatch_One_Some:
  "rmatch i (One c # r) s = Some n \<Longrightarrow> 0 < n \<and> s \<noteq> [] \<and> cmatch i c (hd s)"
  by (cases s) (auto split: if_splits)

lemma rmatch_Plus_Some:
  assumes "rmatch i (Plus c # r) s = Some n"
  shows "0 < n \<and> s \<noteq> [] \<and> cmatch i c (hd s)"
proof -
  from assms have "0 < length (takeWhile (cmatch i c) s) \<and> 0 < n"
    using backtrack_Some by fastforce
  then show ?thesis by (cases s) (auto split: if_splits)
qed

lemma lit_not_space:
  "cmatch True (Lit CHR ''s'') x \<Longrightarrow> \<not> isSpace x"
  "cmatch True (Lit CHR ''v'') x \<Longrightarrow> \<not> isSpace x"
  "cmatch i Digit x \<Longrightarrow> \<not> isSpace x"
  by (auto simp: canonicalize_def smalls_def capitals_def isSpace_def isDigit_def)

lemma rsearch_headed:
  assumes h: "\<And>s n. rmatch i p s = Some n \<Longrightarrow> 0 < n \<and> s \<noteq> [] \<and> cmatch i c (hd s)"
  shows "rsearch i p s = Some m \<Longrightarrow> m \<noteq> [] \<and> cmatch i c (hd m)"
proof (induction s)
  case Nil
  then show ?case using h [of "[]"] by (auto split: option.splits)
next
  case (Cons x xs)
  show ?case
  proof (cases "rmatch i p (x # xs)")
    case None
    with Cons show ?thesis by simp
  next
    case (Some n)
    with h [of "x # xs" n] have "0 < n" "cmatch i c x" by auto
    moreover from Some Cons.prems have "m = take n (x # xs)" by simp
    ultimately show ?thesis by (cases n) auto
  qed
qed

lemma firstMatch_Some:
  "firstMatch ps t = Some m \<Longrightarrow> \<exists>(p, i) \<in> set ps. rsearch i p t = Some m"
  by (induction ps) (auto split: option.splits)

lemma firstMatch_nonspace:
  assumes "firstMatch versionPatterns t = Some m"
  shows "m \<noteq> [] \<and> \<not> isSpace (hd m)"
proof -
  have s: "rsearch True (One (Lit CHR ''s'') # r) t = Some m \<Longrightarrow> m \<noteq> [] \<and> \<not> isSpace (hd m)" for r
    using rsearch_headed [of True "One (Lit CHR ''s'') # r" "Lit CHR ''s''" t m]
      rmatch_One_Some lit_not_space(1) by blast
  have v: "rsearch True (One (Lit CHR ''v'') # r) t = Some m \<Longrightarrow> m \<noteq> [] \<and> \<not> isSpace (hd m)" for r
    using rsearch_headed [of True "One (Lit CHR ''v'') # r" "Lit CHR ''v''" t m]
      rmatch_One_Some lit_not_space(2) by blast
  have d: "rsearch False (Plus Digit # r) t = Some m \<Longrightarrow> m \<noteq> [] \<and> \<not> isSpace (hd m)" for r
    using rsearch_headed [of False "Plus Digit # r" Digit t m]
      rmatch_Plus_Some lit_not_space(3) by blast
  from assms obtain p i where pi: "(p, i) \<in> set versionPatterns" "rsearch i p t = Some m"
    using firstMatch_Some by blast
  from pi(1) have "(i \<and> (\<exists>r. p = One (Lit CHR ''s'') # r)) \<or> (i \<and> (\<exists>r. p = One (Lit CHR ''v'') # r))
      \<or> (\<not> i \<and> (\<exists>r. p = Plus Digit # r))"
    by (auto simp: versionPatterns_def lits_def semver_def)
  with pi(2) show ?thesis using s v d by auto
qed

lemma unify_nonempty: "v \<noteq> [] \<Longrightarrow> unify v \<noteq> []"
  by (simp add: unify_def)

lemma scanWords_nonempty: "scanWords ws \<noteq> []"
  by (induction ws) auto

lemma extract_nonempty: "extractVersionFromText v \<noteq> []"
proof (cases v)
  case (JString raw)
  show ?thesis
  proof (cases "firstMatch versionPatterns (trim raw)")
    case None
    with JString show ?thesis by (simp add: Let_def scanWords_nonempty)
  next
    case (Some m)
    then have "unify (trim m) \<noteq> []"
      using firstMatch_nonspace trim_nonempty unify_nonempty by blast
    with JString Some show ?thesis by simp
  qed
qed simp_all



lemma scanWords_none: "\<forall>w \<in> set ws. \<not> qualifies w \<Longrightarrow> scanWords ws = ''subconverter''"
  by (induction ws) auto

lemma firstMatch_empty: "firstMatch versionPatterns [] = None"
  by code_simp

lemma extract_blank: "trim s = [] \<Longrightarrow> extractVersionFromText (JString s) = ''subconverter''"
  by (simp add: firstMatch_empty)

lemma extract_long_unmatched:
  assumes "firstMatch versionPatterns (trim t) = None" and "50 < length (trim t)"
    and "\<forall>w \<in> set (splitWs [] (trim t)). \<not> qualifies w"
  shows "extractVersionFromText (JString t) = ''subconverter''"
proof -
  from assms(2) have "t \<noteq> []" by (auto simp: trim_def)
  with assms show ?thesis by (simp add: scanWords_none)
qed

lemma extract_non_string: "\<forall>s. v \<noteq> JString s \<Longrightarrow> extractVersionFromText v = ''subconverter''"
  by (cases v) simp_all

subsection \<open>The examples, and totality\<close>

lemma example_full:
  "extractVersionFromText (JString ''subconverter v0.9.9-7544246 backend'')
     = ''subconverter v0.9.9-7544246 backend''"
  by code_simp

lemma example_build:
  "extractVersionFromText (JString ''v0.9.9-7544246'') = ''subconverter v0.9.9-7544246''"
  by code_simp

lemma example_bare:
  "extractVersionFromText (JString ''0.9.9'') = ''subconverter v0.9.9''"
  by code_simp

lemma example_empty: "extractVersionFromText (JString []) = ''subconverter''"
  by simp

lemma example_no_pattern:
  "extractVersionFromText (JString ''hello world'') = ''hello world''"
  by code_simp

text \<open>
  Claim C7. The five examples of the specification: the full form is returned as it
  is, the \<open>v\<close> form gets the service name in front, the bare number gets the service
  name and a \<open>v\<close>, the empty text gives the sentinel \<open>subconverter\<close>, and a short text
  without any pattern is returned as it is.
\<close>

theorem extractVersionFromText_examples:
  "extractVersionFromText (JString ''subconverter v0.9.9-7544246 backend'')
     = ''subconverter v0.9.9-7544246 backend''
   \<and> extractVersionFromText (JString ''v0.9.9-7544246'') = ''subconverter v0.9.9-7544246''
   \<and> extractVersionFromText (JString ''0.9.9'') = ''subconverter v0.9.9''
   \<and> extractVersionFromText (JString []) = ''subconverter''
   \<and> extractVersionFromText (JString ''hello world'') = ''hello world''"
  using example_full example_build example_bare example_empty example_no_pattern
  by (intro conjI)

text \<open>
  Claim C10. \<open>extractVersionFromText\<close> is a total function whose result is never the
  empty string. On a value that is not a string, and on a string that is empty after
  trimming, the result is the sentinel \<open>subconverter\<close>; so it is on a text of more than 50
  characters that matches no pattern and has no word that qualifies.
\<close>

theorem extractVersionFromText_total_nonempty:
  "extractVersionFromText v \<noteq> []
   \<and> ((\<forall>s. v \<noteq> JString s) \<longrightarrow> extractVersionFromText v = ''subconverter'')
   \<and> (trim s = [] \<longrightarrow> extractVersionFromText (JString s) = ''subconverter'')
   \<and> (firstMatch versionPatterns (trim t) = None \<and> 50 < length (trim t)
        \<and> (\<forall>w \<in> set (splitWs [] (trim t)). \<not> qualifies w)
      \<longrightarrow> extractVersionFromText (JString t) = ''subconverter'')"
  using extract_nonempty extract_non_string extract_blank extract_long_unmatched by blast

lemma long_text_unmatched:
  "firstMatch versionPatterns
     (trim ''  hello world hello world hello world hello world hello world  '') = None"
  by code_simp

lemma long_text_length:
  "50 < length (trim ''  hello world hello world hello world hello world hello world  '')"
  by code_simp

lemma long_text_words:
  "\<forall>w \<in> set (splitWs [] (trim ''  hello world hello world hello world hello world hello world  '')).
     \<not> qualifies w"
  by code_simp

lemma blank_trim: "trim [CHR '' '', CHR 0x09, CHR 0x0A] = []"
  by code_simp

theorem extractVersionFromText_total_nonempty_witness:
  "extractVersionFromText JNull = ''subconverter''
   \<and> extractVersionFromText (JString [CHR '' '', CHR 0x09, CHR 0x0A]) = ''subconverter''
   \<and> extractVersionFromText
        (JString ''  hello world hello world hello world hello world hello world  '')
      = ''subconverter''"
  using extractVersionFromText_total_nonempty [of JNull "[CHR '' '', CHR 0x09, CHR 0x0A]"
      "''  hello world hello world hello world hello world hello world  ''"]
    long_text_unmatched long_text_length long_text_words blank_trim
  by simp

section \<open>Properties of the probes\<close>

lemma fullCheck_200_healthy:
  "fullCheckFn score (Responds 200 (BodyText text)) rt ts =
     Inr \<lparr>healthy = True, responseTime = Some rt, responseTimeScore = score rt, status = 200,
          version = VersionText (extractVersionFromText (JString text)), priority = Normal,
          error = None, timestamp = ts\<rparr>"
  by (simp add: fullCheckFn_def fullTry_def)

lemma hello_no_identity: "\<not> includes_str (toLowerCase ''hello'') ''subconverter''"
  by code_simp

text \<open>
  Claim C3. The body \<open>hello\<close> does not contain the service identity, and the full check
  of a 200 response with that body still reports it healthy: the content sniff is
  joined by \<open>\<or>\<close> with the status test that already holds on this branch.
\<close>

theorem fullCheck_sniff_has_no_effect:
  "\<not> includes_str (toLowerCase ''hello'') ''subconverter'' \<and>
   map_sum id healthy (fullCheckFn (\<lambda>rt. 100) (Responds 200 (BodyText ''hello'')) 12 0)
     = Inr True"
  using hello_no_identity by (simp add: fullCheck_200_healthy)

text \<open>
  Claim C4. On a 200 response whose body cannot be read, the fast probe answers
  healthy, with the generic version string and the score of the response time, and the
  full probe answers unhealthy.
\<close>

theorem priorityCheck_fullCheck_asymmetry:
  "priorityCheckFn score (Responds 200 (BodyFails e)) rt ts =
     Inr \<lparr>healthy = True, responseTime = Some rt, responseTimeScore = score rt, status = 200,
          version = VersionText ''subconverter'', priority = High, error = None, timestamp = ts\<rparr>
   \<and> fullCheckFn score (Responds 200 (BodyFails e)) rt ts =
     Inr \<lparr>healthy = False, responseTime = Some rt, responseTimeScore = score rt, status = 200,
          version = UnknownVersion, priority = Normal, error = None, timestamp = ts\<rparr>"
  by (simp add: priorityCheckFn_def priorityTry_def fullCheckFn_def fullTry_def)

lemma priorityCheckFn_returns: "\<exists>r. priorityCheckFn score out rt ts = Inr r"
  by (simp add: priorityCheckFn_def split: sum.splits)

lemma fullCheckFn_returns: "\<exists>r. fullCheckFn score out rt ts = Inr r"
  by (simp add: fullCheckFn_def split: sum.splits)

text \<open>
  Claim C9. When \<^verbatim>\<open>fetch\<close> rejects (a transport error, or the abort of the timeout),
  both check functions return the unhealthy result with score 0, status 0, no response
  time, and the name of the error; and whatever the network does, neither check
  function lets an exception out.
\<close>

theorem probe_transport_error_result:
  "priorityCheckFn score (FetchRejects e) rt ts =
     Inr \<lparr>healthy = False, responseTime = None, responseTimeScore = 0, status = 0,
          version = UnknownVersion, priority = High, error = Some (err_name e), timestamp = ts\<rparr>
   \<and> fullCheckFn score (FetchRejects e) rt ts =
     Inr \<lparr>healthy = False, responseTime = None, responseTimeScore = 0, status = 0,
          version = UnknownVersion, priority = Normal, error = Some (err_name e), timestamp = ts\<rparr>
   \<and> (\<exists>r. priorityCheckFn score out rt ts = Inr r)
   \<and> (\<exists>r. fullCheckFn score out rt ts = Inr r)"
  using priorityCheckFn_returns fullCheckFn_returns
  by (simp add: priorityCheckFn_def priorityTry_def fullCheckFn_def fullTry_def)

section \<open>Properties of the notifier\<close>

text \<open>
  Three failing attempts: the attempts and the sleeps are the same for every payload;
  what follows the fallback depends on whether the payload can be stringified.
\<close>

lemma three_failures:
  assumes "maxRetries n = 3" and "fallbackEnabled n"
    and "\<forall>k. attemptError (net k) \<noteq> None"
  shows "\<exists>e. attemptError (net 3) = Some e \<and>
    attempts n d net 1 =
      (case fallbackNotification d of
         Inl exn \<Rightarrow>
           (Inl exn,
            [Attempt 1, Sleep (retryDelay n * 2 ^ (1 - 1)), Attempt 2,
             Sleep (retryDelay n * 2 ^ (2 - 1)), Attempt 3, FallbackNotification])
       | Inr _ \<Rightarrow>
           (Inr (NotSent 3 e True),
            [Attempt 1, Sleep (retryDelay n * 2 ^ (1 - 1)), Attempt 2,
             Sleep (retryDelay n * 2 ^ (2 - 1)), Attempt 3, FallbackNotification,
             SaveNotificationToDB False]))"
proof -
  from assms(3) obtain e1 e2 e3 where
    e: "attemptError (net 1) = Some e1" "attemptError (net 2) = Some e2"
      "attemptError (net 3) = Some e3"
    by (meson option.exhaust)
  have a3: "attempts n d net 3 =
      (case fallbackNotification d of
         Inl exn \<Rightarrow> (Inl exn, [Attempt 3, FallbackNotification])
       | Inr _ \<Rightarrow> (Inr (NotSent 3 e3 True),
                    [Attempt 3, FallbackNotification, SaveNotificationToDB False]))"
    using assms(1,2) e(3) by (simp add: attempts.simps [of n d net 3] split: sum.splits)
  have a2: "attempts n d net 2 =
      (case fallbackNotification d of
         Inl exn \<Rightarrow> (Inl exn, [Attempt 2, Sleep (retryDelay n * 2 ^ (2 - 1)),
                               Attempt 3, FallbackNotification])
       | Inr _ \<Rightarrow> (Inr (NotSent 3 e3 True),
                    [Attempt 2, Sleep (retryDelay n * 2 ^ (2 - 1)),
                     Attempt 3, FallbackNotification, SaveNotificationToDB False]))"
    using assms(1) e(2) a3 by (simp add: attempts.simps [of n d net 2] split: sum.splits)
  have a1: "attempts n d net 1 =
      (case fallbackNotification d of
         Inl exn \<Rightarrow> (Inl exn, [Attempt 1, Sleep (retryDelay n * 2 ^ (1 - 1)),
                               Attempt 2, Sleep (retryDelay n * 2 ^ (2 - 1)),
                               Attempt 3, FallbackNotification])
       | Inr _ \<Rightarrow> (Inr (NotSent 3 e3 True),
                    [Attempt 1, Sleep (retryDelay n * 2 ^ (1 - 1)),
                     Attempt 2, Sleep (retryDelay n * 2 ^ (2 - 1)),
                     Attempt 3, FallbackNotification, SaveNotificationToDB False]))"
    using assms(1) e(1) a2
    by (simp add: attempts.simps [of n d net "Suc 0"] numeral_2_eq_2 [symmetric]
        split: sum.splits)
  from a1 e(3) show ?thesis by simp
qed

lemma retry_backoff_serialisable:
  assumes "\<not> falsy (TG_BOT_TOKEN (env n))" and "\<not> falsy (TG_CHAT_ID (env n))"
    and "notificationSettings (env n) (n_type d)"
    and "maxRetries n = 3" and "fallbackEnabled n" and "0 < retryDelay n"
    and "\<forall>k. attemptError (net k) \<noteq> None"
    and "\<not> stringifyThrows d"
  shows "\<exists>e. attemptError (net 3) = Some e \<and>
    sendNotification n d net =
      (Inr (NotSent 3 e True),
       [Attempt 1, Sleep (retryDelay n), Attempt 2, Sleep (2 * retryDelay n),
        Attempt 3, FallbackNotification, SaveNotificationToDB False])
    \<and> retryDelay n < 2 * retryDelay n"
  using three_failures [OF assms(4,5,7), of d] assms(1,2,3,6,8)
  by (auto simp: sendNotification_def fallbackNotification_def)

lemma retry_backoff_unserialisable:
  assumes "\<not> falsy (TG_BOT_TOKEN (env n))" and "\<not> falsy (TG_CHAT_ID (env n))"
    and "notificationSettings (env n) (n_type d)"
    and "maxRetries n = 3" and "fallbackEnabled n"
    and "\<forall>k. attemptError (net k) \<noteq> None"
    and "stringifyThrows d"
  shows "sendNotification n d net =
      (Inl TypeError,
       [Attempt 1, Sleep (retryDelay n), Attempt 2, Sleep (2 * retryDelay n),
        Attempt 3, FallbackNotification])"
  using three_failures [OF assms(4,5,6), of d] assms(1,2,3,7)
  by (auto simp: sendNotification_def fallbackNotification_def)

lemma plain_payload_example:
  "sendNotification (newNotifier live_env) plain_payload (\<lambda>k. HttpNotOk 502 ''Bad Gateway'') =
      (Inr (NotSent 3 (HttpError 502 ''Bad Gateway'') True),
       [Attempt 1, Sleep 1000, Attempt 2, Sleep 2000,
        Attempt 3, FallbackNotification, SaveNotificationToDB False])"
  using retry_backoff_serialisable [of "newNotifier live_env" plain_payload
      "\<lambda>k. HttpNotOk 502 ''Bad Gateway''"]
  by (simp add: newNotifier_def falsy_def live_env_def plain_payload_def stringifyThrows_def)

text \<open>
  Claim C5. With both credentials present, the type enabled and every attempt
  answered by HTTP 502, the constructor's notifier makes the attempts 1, 2 and 3 with
  sleeps of 1000 and 2000 ms and calls the fallback; on the payload with a BigInt field
  the fallback's \<^verbatim>\<open>JSON.stringify\<close> throws, so \<open>sendNotification\<close> ends with that
  exception: no outcome is returned and the failure is not saved.
\<close>

theorem sendNotification_rejects_when_fallback_throws:
  "\<not> falsy (TG_BOT_TOKEN (env (newNotifier live_env)))
   \<and> \<not> falsy (TG_CHAT_ID (env (newNotifier live_env)))
   \<and> notificationSettings (env (newNotifier live_env)) (n_type bigint_payload)
   \<and> sendNotification (newNotifier live_env) bigint_payload (\<lambda>k. HttpNotOk 502 ''Bad Gateway'') =
      (Inl TypeError,
       [Attempt 1, Sleep 1000, Attempt 2, Sleep 2000, Attempt 3, FallbackNotification])"
  using retry_backoff_unserialisable [of "newNotifier live_env" bigint_payload
      "\<lambda>k. HttpNotOk 502 ''Bad Gateway''"]
  by (simp add: newNotifier_def falsy_def live_env_def bigint_payload_def stringifyThrows_def)

section \<open>Properties of the scheduler\<close>

subsection \<open>Identities are kept apart by every turn\<close>

lemma runTask_fields [simp]:
  "queue (runTask t now w) = queue w"
  "executing (runTask t now w) = executing w @ [t]"
  "settled (runTask t now w) = settled w"
  "timers (runTask t now w) = timers w"
  "next_id (runTask t now w) = next_id w"
  "maxConcurrent (runTask t now w) = maxConcurrent w"
  by (simp_all add: runTask_def Let_def)

lemma drain_shape: "\<exists>k. drained k w (drain now w)"
proof (induction now w rule: drain.induct)
  case (1 now w)
  show ?case
  proof (cases "queue w")
    case Nil
    then have "drained 0 w (drain now w)"
      by (simp add: drain.simps [of now w] drained_def)
    then show ?thesis ..
  next
    case (Cons item rest)
    show ?thesis
    proof (cases "length (activeChecks w) < maxConcurrent w")
      case False
      with Cons have "drained 0 w (drain now w)"
        by (simp add: drain.simps [of now w] drained_def)
      then show ?thesis ..
    next
      case True
      let ?w1 = "runTask (q_task item) now (w\<lparr>queue := rest\<rparr>)"
      from Cons True have d: "drain now w = drain now ?w1"
        by (simp add: drain.simps [of now w])
      from "1.IH" [OF Cons True] obtain k where "drained k ?w1 (drain now ?w1)" ..
      with Cons d have "drained (Suc k) w (drain now w)"
        by (auto simp: drained_def)
      then show ?thesis ..
    qed
  qed
qed

lemma processQueue_shape:
  "\<exists>k. drained k (w\<lparr>queue := filter (\<lambda>item. now - addedTime item < 30000) (queue w)\<rparr>)
         (processQueue now w)"
  unfolding processQueue_def by (rule drain_shape)

lemma drained_ids:
  assumes "drained k w w'"
  shows "set (ids w') = set (ids w)" and "distinct (ids w) \<Longrightarrow> distinct (ids w')"
proof -
  have q: "queue w = take k (queue w) @ drop k (queue w)" by simp
  from assms have i: "ids w' = map qid (drop k (queue w))
      @ (map t_id (executing w) @ map qid (take k (queue w))) @ map fst (settled w)"
    by (simp add: drained_def ids_def qid_def)
  have j: "ids w = (map qid (take k (queue w)) @ map qid (drop k (queue w)))
      @ map t_id (executing w) @ map fst (settled w)"
    by (simp add: ids_def flip: map_append)
  show "set (ids w') = set (ids w)" unfolding i j by auto
  show "distinct (ids w) \<Longrightarrow> distinct (ids w')" unfolding i j by auto
qed

lemma processQueue_ids:
  "set (ids (processQueue now w)) \<subseteq> set (ids w)"
  "distinct (ids w) \<Longrightarrow> distinct (ids (processQueue now w))"
  "next_id (processQueue now w) = next_id w"
proof -
  let ?f = "w\<lparr>queue := filter (\<lambda>item. now - addedTime item < 30000) (queue w)\<rparr>"
  obtain k where k: "drained k ?f (processQueue now w)"
    using processQueue_shape by blast
  have s: "set (ids ?f) \<subseteq> set (ids w)" by (auto simp: ids_def)
  have d: "distinct (ids w) \<Longrightarrow> distinct (ids ?f)"
    by (auto simp: ids_def distinct_map_filter)
  from k s show "set (ids (processQueue now w)) \<subseteq> set (ids w)"
    using drained_ids(1) by blast
  from k d show "distinct (ids w) \<Longrightarrow> distinct (ids (processQueue now w))"
    using drained_ids(2) by blast
  from k show "next_id (processQueue now w) = next_id w" by (simp add: drained_def)
qed

lemma find_executing:
  "find (\<lambda>t. t_id t = i) (executing w) = Some t \<Longrightarrow> t \<in> set (executing w)"
  by (auto simp: find_Some_iff)

lemma settleTask_ids:
  assumes "t \<in> set (executing w)"
  shows "set (ids (settleTask t out now w)) \<subseteq> set (ids w)"
    and "distinct (ids w) \<Longrightarrow> distinct (ids (settleTask t out now w))"
    and "next_id (settleTask t out now w) = next_id w"
proof -
  have e: "executing (settleTask t out now w) = remove1 t (executing w)"
    and s: "settled (settleTask t out now w) = settled w @ [(t_id t, out)]"
    and q: "queue (settleTask t out now w) = queue w"
    by (simp_all add: settleTask_def Let_def split: outcome.splits)
  from assms show "set (ids (settleTask t out now w)) \<subseteq> set (ids w)"
    unfolding ids_def e s q using set_remove1_subset [of t "executing w"] by auto
  show "next_id (settleTask t out now w) = next_id w"
    by (simp add: settleTask_def Let_def split: outcome.splits)
  show "distinct (ids (settleTask t out now w))" if d: "distinct (ids w)"
  proof -
    from assms obtain xs ys where xy: "executing w = xs @ t # ys" "t \<notin> set xs"
      by (meson split_list_first)
    then have r: "remove1 t (executing w) = xs @ ys" by (simp add: remove1_append)
    have a: "ids (settleTask t out now w) =
        map qid (queue w) @ map t_id (xs @ ys) @ map fst (settled w) @ [t_id t]"
      by (simp add: ids_def e s q r)
    have b: "ids w = map qid (queue w) @ map t_id (xs @ t # ys) @ map fst (settled w)"
      by (simp add: ids_def xy(1))
    from d show ?thesis unfolding a b by auto
  qed
qed

lemma admit_ids:
  "set (ids (admit url rid now w)) = insert (next_id w) (set (ids w))"
  "distinct (ids w) \<Longrightarrow> next_id w \<notin> set (ids w) \<Longrightarrow> distinct (ids (admit url rid now w))"
  "next_id (admit url rid now w) = Suc (next_id w)"
  by (auto simp: admit_def ids_def qid_def Let_def)

lemma reset_ids:
  "set (ids (reset now w)) \<subseteq> set (ids w)"
  "distinct (ids w) \<Longrightarrow> distinct (ids (reset now w))"
  "next_id (reset now w) = next_id w"
  by (auto simp: reset_def ids_def)

lemma scheduleCheck_ids:
  "set (ids (scheduleCheck url rid now w)) \<subseteq> insert (next_id w) (set (ids w))"
  "distinct (ids w) \<Longrightarrow> next_id w \<notin> set (ids w) \<Longrightarrow> distinct (ids (scheduleCheck url rid now w))"
  "next_id (scheduleCheck url rid now w) = Suc (next_id w)"
  using reset_ids [where now = now and w = w] admit_ids [where url = url and rid = rid and now = now and w = w]
    admit_ids [where url = url and rid = rid and now = now and w = "reset now w"]
  by (auto simp: scheduleCheck_def)

lemma cleanup_ids:
  "set (ids (cleanup t now w)) \<subseteq> set (ids w)"
  "distinct (ids w) \<Longrightarrow> distinct (ids (cleanup t now w))"
  "next_id (cleanup t now w) = next_id w"
  unfolding cleanup_def
  using processQueue_ids [where now = now and w = "w\<lparr>activeChecks := AList.delete (t_key t) (activeChecks w),
          stats := (stats w)\<lparr>totalCompleted := totalCompleted (stats w) + 1\<rparr>\<rparr>"]
  by (simp_all add: ids_def)

lemma timers_ids [simp]:
  "ids (w\<lparr>timers := x\<rparr>) = ids w"
  by (simp add: ids_def)

lemma step_cases:
  obtains (call) url rid now where "step ev w = scheduleCheck url rid now w"
  | (settle) t out now where "t \<in> set (executing w)" "step ev w = settleTask t out now w"
  | (timer) t now x where "step ev w = cleanup t now (w\<lparr>timers := x\<rparr>)"
  | (idle) "step ev w = w"
proof (cases ev)
  case (Call url rid now)
  then show ?thesis using call by simp
next
  case (Settle i out now)
  show ?thesis
  proof (cases "find (\<lambda>t. t_id t = i) (executing w)")
    case None
    with Settle show ?thesis using idle by simp
  next
    case (Some t)
    with Settle show ?thesis using settle [of t out now] find_executing [of i w t] by simp
  qed
next
  case (Timer i now)
  show ?thesis
  proof (cases "find (\<lambda>(t, due). t_id t = i \<and> due \<le> now) (timers w)")
    case None
    with Timer show ?thesis using idle by simp
  next
    case (Some p)
    with Timer show ?thesis using timer [of "fst p" now "remove1 p (timers w)"]
      by (cases p) simp
  qed
qed

lemma step_next_id: "next_id w \<le> next_id (step ev w)"
proof (cases ev w rule: step_cases)
  case (call url rid now)
  then show ?thesis by (simp add: scheduleCheck_ids(3))
next
  case (settle t out now)
  then show ?thesis by (simp add: settleTask_ids(3))
next
  case (timer t now x)
  then show ?thesis by (simp add: cleanup_ids(3))
next
  case idle
  then show ?thesis by simp
qed

lemma step_ids_subset:
  "set (ids (step ev w)) \<subseteq> set (ids w) \<union> {next_id w}"
proof (cases ev w rule: step_cases)
  case (call url rid now)
  then show ?thesis using scheduleCheck_ids(1) [where url = url and rid = rid and now = now and w = w] by auto
next
  case (settle t out now)
  then show ?thesis using settleTask_ids(1) [where t = t and w = w and out = out and now = now] by auto
next
  case (timer t now x)
  then show ?thesis using cleanup_ids(1) [where t = t and now = now and w = "w\<lparr>timers := x\<rparr>"] by auto
next
  case idle
  then show ?thesis by auto
qed

lemma step_ids_distinct:
  assumes "distinct (ids w)" and "next_id w \<notin> set (ids w)"
  shows "distinct (ids (step ev w))"
proof (cases ev w rule: step_cases)
  case (call url rid now)
  with assms show ?thesis by (simp add: scheduleCheck_ids(2))
next
  case (settle t out now)
  with assms show ?thesis by (simp add: settleTask_ids(2))
next
  case (timer t now x)
  with assms show ?thesis using cleanup_ids(2) [where t = t and now = now and w = "w\<lparr>timers := x\<rparr>"] by simp
next
  case idle
  with assms show ?thesis by simp
qed

lemma step_ids_grow:
  "set (ids (step ev w)) \<subseteq> set (ids w) \<or> next_id w < next_id (step ev w)"
proof (cases ev w rule: step_cases)
  case (call url rid now)
  then show ?thesis by (simp add: scheduleCheck_ids(3))
next
  case (settle t out now)
  then show ?thesis using settleTask_ids(1) [where t = t and w = w and out = out and now = now] by auto
next
  case (timer t now x)
  then show ?thesis using cleanup_ids(1) [where t = t and now = now and w = "w\<lparr>timers := x\<rparr>"] by auto
next
  case idle
  then show ?thesis by auto
qed

lemma unique_ids_step:
  assumes "unique_ids w"
  shows "unique_ids (step ev w)"
proof -
  from assms have d: "distinct (ids w)" and b: "\<forall>i \<in> set (ids w). i < next_id w"
    by (simp_all add: unique_ids_def list_all_iff)
  from b have n: "next_id w \<notin> set (ids w)" by auto
  have "distinct (ids (step ev w))" using d n by (rule step_ids_distinct)
  moreover have "\<forall>i \<in> set (ids (step ev w)). i < next_id (step ev w)"
  proof
    fix i assume "i \<in> set (ids (step ev w))"
    then have "i \<in> set (ids w) \<or> i = next_id w" using step_ids_subset [of ev w] by auto
    moreover have "set (ids (step ev w)) \<subseteq> set (ids w) \<or> next_id w < next_id (step ev w)"
      by (rule step_ids_grow)
    ultimately show "i < next_id (step ev w)"
      using b step_next_id [of w ev] \<open>i \<in> set (ids (step ev w))\<close> by fastforce
  qed
  ultimately show ?thesis by (simp add: unique_ids_def list_all_iff)
qed

lemma unique_ids_run: "unique_ids w \<Longrightarrow> unique_ids (run evs w)"
  unfolding run_def by (induction evs arbitrary: w) (simp_all add: unique_ids_step)

lemma unique_ids_new: "unique_ids (newController config t0)"
  by (simp add: unique_ids_def ids_def newController_def)

lemma absent_step:
  assumes "absent i w"
  shows "absent i (step ev w)"
proof -
  from assms have "i < next_id w" "i \<notin> set (ids w)" by (simp_all add: absent_def)
  moreover have "set (ids (step ev w)) \<subseteq> set (ids w) \<union> {next_id w}"
    by (rule step_ids_subset)
  moreover have "next_id w \<le> next_id (step ev w)" by (rule step_next_id)
  ultimately show ?thesis unfolding absent_def by auto
qed

lemma absent_run: "absent i w \<Longrightarrow> absent i (run evs w)"
  unfolding run_def by (induction evs arbitrary: w) (simp_all add: absent_step)

lemma absent_never:
  assumes "absent i w"
  shows "i \<notin> t_id ` set (executing (run evs w))" and "i \<notin> fst ` set (settled (run evs w))"
  using absent_run [OF assms, of evs] by (auto simp: absent_def ids_def)

lemma processQueue_absent:
  assumes u: "unique_ids w" and e: "e \<in> set (queue w)" and old: "30000 \<le> now - addedTime e"
  shows "absent (qid e) (processQueue now w)"
proof -
  let ?fresh = "filter (\<lambda>item. now - addedTime item < 30000) (queue w)"
  let ?f = "w\<lparr>queue := ?fresh\<rparr>"
  obtain k where k: "drained k ?f (processQueue now w)"
    using processQueue_shape by blast
  from u have d: "distinct (map qid (queue w))"
    and x: "qid ` set (queue w) \<inter> (t_id ` set (executing w) \<union> fst ` set (settled w)) = {}"
    and b: "\<forall>i \<in> set (ids w). i < next_id w"
    by (auto simp: unique_ids_def ids_def list_all_iff)
  from old have "e \<notin> set ?fresh" by simp
  moreover from d have "inj_on qid (set (queue w))" by (simp add: distinct_map)
  ultimately have "qid e \<notin> qid ` set ?fresh"
    using e by (auto dest: inj_onD)
  moreover from e x have "qid e \<notin> t_id ` set (executing w) \<union> fst ` set (settled w)" by blast
  ultimately have "qid e \<notin> set (ids ?f)" by (auto simp: ids_def)
  then have "qid e \<notin> set (ids (processQueue now w))" using drained_ids(1) [OF k] by simp
  moreover from b e have "qid e < next_id w" by (auto simp: ids_def)
  ultimately show ?thesis using processQueue_ids(3) [of now w] by (simp add: absent_def)
qed

subsection \<open>The lazy reset\<close>

lemma admit_no_reset_fields:
  "lastResetTime (stats (admit url rid now w)) = lastResetTime (stats w)
   \<and> lastReset (stats (admit url rid now w)) = lastReset (stats w)
   \<and> totalCompleted (stats (admit url rid now w)) = totalCompleted (stats w)
   \<and> errors (stats (admit url rid now w)) = errors (stats w)
   \<and> successes (stats (admit url rid now w)) = successes (stats w)
   \<and> totalStarted (stats w) \<le> totalStarted (stats (admit url rid now w))
   \<and> maxActive (stats w) \<le> maxActive (stats (admit url rid now w))"
  by (simp add: admit_def runTask_def Let_def)

lemma admit_keeps_queue: "\<exists>new. queue (admit url rid now w) = queue w @ new"
  by (simp add: admit_def runTask_def Let_def)

lemma admit_keeps_active:
  "set (map fst (activeChecks w)) \<subseteq> set (map fst (activeChecks (admit url rid now w)))"
  by (auto simp: admit_def runTask_def Let_def dom_update)

lemma admit_after_reset:
  "stats (admit url rid now (reset now w)) =
     \<lparr>totalStarted = (if 0 < maxConcurrent w then 1 else 0), totalCompleted = 0,
      maxActive = (if 0 < maxConcurrent w then 1 else 0), errors = 0, successes = 0,
      lastReset = now, lastResetTime = now\<rparr>
   \<and> map fst (activeChecks (admit url rid now (reset now w))) =
       (if 0 < maxConcurrent w then [(url, now)] else [])
   \<and> map q_url (queue (admit url rid now (reset now w))) =
       (if 0 < maxConcurrent w then [] else [url])"
  by (simp add: admit_def runTask_def reset_def freshStats_def Let_def)

text \<open>
  Claim C8. When more than five minutes have passed since \<open>lastResetTime\<close>,
  \<open>scheduleCheck\<close> first resets (all five counters zero, the active map and the queue
  empty, both reset stamps at the current time) and only then admits or queues the call,
  so that afterwards the counters show this call alone. When five minutes or less have
  passed there is no reset: the stamps and the counters of completed, failed and
  successful tasks are unchanged, the others did not decrease, the queue kept its
  entries and the active map its keys.
\<close>

theorem scheduleCheck_lazy_reset:
  "(5 * 60 * 1000 < now - lastResetTime (stats w) \<longrightarrow>
      scheduleCheck url rid now w = admit url rid now (reset now w)
      \<and> stats (reset now w) =
          \<lparr>totalStarted = 0, totalCompleted = 0, maxActive = 0, errors = 0, successes = 0,
           lastReset = now, lastResetTime = now\<rparr>
      \<and> activeChecks (reset now w) = [] \<and> queue (reset now w) = []
      \<and> stats (scheduleCheck url rid now w) =
          \<lparr>totalStarted = (if 0 < maxConcurrent w then 1 else 0), totalCompleted = 0,
           maxActive = (if 0 < maxConcurrent w then 1 else 0), errors = 0, successes = 0,
           lastReset = now, lastResetTime = now\<rparr>
      \<and> map fst (activeChecks (scheduleCheck url rid now w)) =
          (if 0 < maxConcurrent w then [(url, now)] else [])
      \<and> map q_url (queue (scheduleCheck url rid now w)) =
          (if 0 < maxConcurrent w then [] else [url]))
   \<and> (now - lastResetTime (stats w) \<le> 5 * 60 * 1000 \<longrightarrow>
      scheduleCheck url rid now w = admit url rid now w
      \<and> lastResetTime (stats (scheduleCheck url rid now w)) = lastResetTime (stats w)
      \<and> lastReset (stats (scheduleCheck url rid now w)) = lastReset (stats w)
      \<and> totalCompleted (stats (scheduleCheck url rid now w)) = totalCompleted (stats w)
      \<and> errors (stats (scheduleCheck url rid now w)) = errors (stats w)
      \<and> successes (stats (scheduleCheck url rid now w)) = successes (stats w)
      \<and> totalStarted (stats w) \<le> totalStarted (stats (scheduleCheck url rid now w))
      \<and> maxActive (stats w) \<le> maxActive (stats (scheduleCheck url rid now w))
      \<and> (\<exists>new. queue (scheduleCheck url rid now w) = queue w @ new)
      \<and> set (map fst (activeChecks w))
           \<subseteq> set (map fst (activeChecks (scheduleCheck url rid now w))))"
proof (intro conjI impI)
  assume late: "5 * 60 * 1000 < now - lastResetTime (stats w)"
  then show r: "scheduleCheck url rid now w = admit url rid now (reset now w)"
    by (simp add: scheduleCheck_def)
  show "stats (reset now w) =
          \<lparr>totalStarted = 0, totalCompleted = 0, maxActive = 0, errors = 0, successes = 0,
           lastReset = now, lastResetTime = now\<rparr>"
    "activeChecks (reset now w) = []" "queue (reset now w) = []"
    by (simp_all add: reset_def freshStats_def)
  show "stats (scheduleCheck url rid now w) =
          \<lparr>totalStarted = (if 0 < maxConcurrent w then 1 else 0), totalCompleted = 0,
           maxActive = (if 0 < maxConcurrent w then 1 else 0), errors = 0, successes = 0,
           lastReset = now, lastResetTime = now\<rparr>"
    "map fst (activeChecks (scheduleCheck url rid now w)) =
          (if 0 < maxConcurrent w then [(url, now)] else [])"
    "map q_url (queue (scheduleCheck url rid now w)) =
          (if 0 < maxConcurrent w then [] else [url])"
    using admit_after_reset [of url rid now w] by (simp_all only: r)
next
  assume early: "now - lastResetTime (stats w) \<le> 5 * 60 * 1000"
  then show r: "scheduleCheck url rid now w = admit url rid now w"
    by (simp add: scheduleCheck_def)
  show "lastResetTime (stats (scheduleCheck url rid now w)) = lastResetTime (stats w)"
    "lastReset (stats (scheduleCheck url rid now w)) = lastReset (stats w)"
    "totalCompleted (stats (scheduleCheck url rid now w)) = totalCompleted (stats w)"
    "errors (stats (scheduleCheck url rid now w)) = errors (stats w)"
    "successes (stats (scheduleCheck url rid now w)) = successes (stats w)"
    "totalStarted (stats w) \<le> totalStarted (stats (scheduleCheck url rid now w))"
    "maxActive (stats w) \<le> maxActive (stats (scheduleCheck url rid now w))"
    using admit_no_reset_fields [of url rid now w] by (simp_all only: r)
  show "\<exists>new. queue (scheduleCheck url rid now w) = queue w @ new"
    using admit_keeps_queue [of url rid now w] by (simp only: r)
  show "set (map fst (activeChecks w))
           \<subseteq> set (map fst (activeChecks (scheduleCheck url rid now w)))"
    using admit_keeps_active [of w url rid now] by (simp only: r)
qed

lemma used_stats:
  "stats used = \<lparr>totalStarted = 2, totalCompleted = 1, maxActive = 1, errors = 0,
      successes = 1, lastReset = 0, lastResetTime = 0\<rparr>"
  by code_simp

lemma used_max: "maxConcurrent used = 1"
  by code_simp

theorem scheduleCheck_lazy_reset_witness:
  "5 * 60 * 1000 < 300001 - lastResetTime (stats used)
   \<and> stats (scheduleCheck ''c'' ''r3'' 300001 used) =
       \<lparr>totalStarted = 1, totalCompleted = 0, maxActive = 1, errors = 0, successes = 0,
        lastReset = 300001, lastResetTime = 300001\<rparr>
   \<and> 300000 - lastResetTime (stats used) \<le> 5 * 60 * 1000
   \<and> totalCompleted (stats (scheduleCheck ''c'' ''r3'' 300000 used)) = 1
   \<and> successes (stats (scheduleCheck ''c'' ''r3'' 300000 used)) = 1
   \<and> lastResetTime (stats (scheduleCheck ''c'' ''r3'' 300000 used)) = 0"
proof -
  have late: "5 * 60 * 1000 < 300001 - lastResetTime (stats used)"
    and early: "300000 - lastResetTime (stats used) \<le> 5 * 60 * 1000"
    by (simp_all add: used_stats)
  from late scheduleCheck_lazy_reset [of 300001 used "''c''" "''r3''"]
  have a: "stats (scheduleCheck ''c'' ''r3'' 300001 used) =
      \<lparr>totalStarted = (if 0 < maxConcurrent used then 1 else 0), totalCompleted = 0,
       maxActive = (if 0 < maxConcurrent used then 1 else 0), errors = 0, successes = 0,
       lastReset = 300001, lastResetTime = 300001\<rparr>"
    by blast
  from early scheduleCheck_lazy_reset [of 300000 used "''c''" "''r3''"]
  have b: "totalCompleted (stats (scheduleCheck ''c'' ''r3'' 300000 used))
             = totalCompleted (stats used)"
    "successes (stats (scheduleCheck ''c'' ''r3'' 300000 used)) = successes (stats used)"
    "lastResetTime (stats (scheduleCheck ''c'' ''r3'' 300000 used))
       = lastResetTime (stats used)"
    by blast+
  from late early a b show ?thesis by (simp add: used_stats used_max)
qed

subsection \<open>The drain and its staleness bound\<close>

lemma runTask_queue_update:
  "runTask t now (w\<lparr>queue := q\<rparr>) = (runTask t now w)\<lparr>queue := q\<rparr>"
  by (simp add: runTask_def Let_def)

lemma after_starts_queue_update:
  "after_starts now items (w\<lparr>queue := q\<rparr>) = (after_starts now items w)\<lparr>queue := q\<rparr>"
  unfolding after_starts_def
  by (induction items arbitrary: w) (simp_all add: runTask_queue_update)

lemma after_starts_max [simp]:
  "maxConcurrent (after_starts now items w) = maxConcurrent w"
  unfolding after_starts_def by (induction items arbitrary: w) simp_all

lemma maxConcurrent_runTask_q:
  "maxConcurrent (runTask t now (w\<lparr>queue := q\<rparr>)) = maxConcurrent w"
  "length (queue (runTask t now (w\<lparr>queue := q\<rparr>))) = length q"
  "queue (runTask t now (w\<lparr>queue := q\<rparr>)) = q"
  by (simp_all add: runTask_def Let_def)

lemma length_update:
  "length (AList.update k v al) = (if k \<in> fst ` set al then length al else Suc (length al))"
  by (induction al) auto

lemma drain_exactD:
  assumes "drain_exact k now w w'"
  shows "k \<le> length (queue w)"
    and "w' = (after_starts now (take k (queue w)) w)\<lparr>queue := drop k (queue w)\<rparr>"
    and "\<And>j. j < k \<Longrightarrow>
           length (activeChecks (after_starts now (take j (queue w)) w)) < maxConcurrent w"
    and "k = length (queue w) \<or> \<not> length (activeChecks w') < maxConcurrent w"
  using assms by (auto simp: drain_exact_def)

lemma drain_is_exact: "\<exists>k. drain_exact k now w (drain now w)"
proof (induction now w rule: drain.induct)
  case (1 now w)
  show ?case
  proof (cases "queue w")
    case Nil
    then have "drain_exact 0 now w (drain now w)"
      by (simp add: drain.simps [of now w] drain_exact_def after_starts_def)
    then show ?thesis ..
  next
    case (Cons item rest)
    show ?thesis
    proof (cases "length (activeChecks w) < maxConcurrent w")
      case False
      with Cons have "drain_exact 0 now w (drain now w)"
        by (simp add: drain.simps [of now w] drain_exact_def after_starts_def)
      then show ?thesis ..
    next
      case True
      let ?r = "runTask (q_task item) now w"
      let ?w1 = "runTask (q_task item) now (w\<lparr>queue := rest\<rparr>)"
      have w1: "?w1 = ?r\<lparr>queue := rest\<rparr>" by (rule runTask_queue_update)
      from Cons True have d: "drain now w = drain now ?w1"
        by (simp add: drain.simps [of now w])
      from "1.IH" [OF Cons True] obtain k where k: "drain_exact k now ?w1 (drain now ?w1)" ..
      have a: "after_starts now (take j rest) ?w1 = (after_starts now (take j rest) ?r)\<lparr>queue := rest\<rparr>" for j
        unfolding w1 by (rule after_starts_queue_update)
      have s: "after_starts now (take (Suc j) (queue w)) w = after_starts now (take j rest) ?r" for j
        using Cons by (simp add: after_starts_def)
      have z: "after_starts now (take 0 (queue w)) w = w" by (simp add: after_starts_def)
      have k1: "k \<le> length rest"
        using drain_exactD(1) [OF k] by (simp add: maxConcurrent_runTask_q)
      have k2: "drain now ?w1 = (after_starts now (take k rest) ?r)\<lparr>queue := drop k rest\<rparr>"
        using drain_exactD(2) [OF k] by (simp add: maxConcurrent_runTask_q a)
      have k3: "length (activeChecks (after_starts now (take j rest) ?r)) < maxConcurrent w"
        if "j < k" for j
        using drain_exactD(3) [OF k that] by (simp add: maxConcurrent_runTask_q a)
      have k4: "k = length rest \<or> \<not> length (activeChecks (drain now ?w1)) < maxConcurrent w"
        using drain_exactD(4) [OF k] by (simp add: maxConcurrent_runTask_q)
      have "\<forall>j<Suc k. length (activeChecks (after_starts now (take j (queue w)) w)) < maxConcurrent w"
      proof (intro allI impI)
        fix j assume "j < Suc k"
        then show "length (activeChecks (after_starts now (take j (queue w)) w)) < maxConcurrent w"
          using True k3 z s by (cases j) simp_all
      qed
      with k1 k2 k4 Cons d s have "drain_exact (Suc k) now w (drain now w)"
        unfolding drain_exact_def by simp
      then show ?thesis ..
    qed
  qed
qed

lemma capacity_drain:
  "length (activeChecks (drain now w)) \<le> max (length (activeChecks w)) (maxConcurrent w)"
proof (induction now w rule: drain.induct)
  case (1 now w)
  show ?case
  proof (cases "queue w")
    case Nil
    then show ?thesis by (simp add: drain.simps [of now w])
  next
    case (Cons item rest)
    show ?thesis
    proof (cases "length (activeChecks w) < maxConcurrent w")
      case False
      with Cons show ?thesis by (simp add: drain.simps [of now w])
    next
      case True
      let ?w1 = "runTask (q_task item) now (w\<lparr>queue := rest\<rparr>)"
      from Cons True have d: "drain now w = drain now ?w1"
        by (simp add: drain.simps [of now w])
      have "length (activeChecks ?w1) \<le> Suc (length (activeChecks w))"
        by (simp add: runTask_def Let_def length_update)
      with True have "max (length (activeChecks ?w1)) (maxConcurrent ?w1) \<le> maxConcurrent w"
        by simp
      with "1.IH" [OF Cons True] d show ?thesis by simp
    qed
  qed
qed

lemma after_starts_fields [simp]:
  "executing (after_starts now items w) = executing w @ map q_task items"
  "settled (after_starts now items w) = settled w"
  unfolding after_starts_def by (induction items arbitrary: w) simp_all

lemma processQueue_exact:
  "\<exists>k. k \<le> length (younger now (queue w))
     \<and> processQueue now w
         = (after_starts now (take k (younger now (queue w))) w)
             \<lparr>queue := drop k (younger now (queue w))\<rparr>
     \<and> (\<forall>j<k. length (activeChecks (after_starts now (take j (younger now (queue w))) w))
                  < maxConcurrent w)
     \<and> (k = length (younger now (queue w))
          \<or> \<not> length (activeChecks (processQueue now w)) < maxConcurrent w)"
proof -
  let ?fresh = "younger now (queue w)"
  let ?f = "w\<lparr>queue := ?fresh\<rparr>"
  obtain k where k: "drain_exact k now ?f (processQueue now w)"
    unfolding processQueue_def using drain_is_exact by blast
  have a: "after_starts now items ?f = (after_starts now items w)\<lparr>queue := ?fresh\<rparr>" for items
    by (rule after_starts_queue_update)
  have "k \<le> length ?fresh" using drain_exactD(1) [OF k] by simp
  moreover have "processQueue now w = (after_starts now (take k ?fresh) w)\<lparr>queue := drop k ?fresh\<rparr>"
    using drain_exactD(2) [OF k] by (simp add: a)
  moreover have "\<forall>j<k. length (activeChecks (after_starts now (take j ?fresh) w)) < maxConcurrent w"
  proof (intro allI impI)
    fix j assume "j < k"
    from drain_exactD(3) [OF k this]
    show "length (activeChecks (after_starts now (take j ?fresh) w)) < maxConcurrent w"
      by (simp add: a)
  qed
  moreover have "k = length ?fresh \<or> \<not> length (activeChecks (processQueue now w)) < maxConcurrent w"
    using drain_exactD(4) [OF k] by simp
  ultimately show ?thesis by blast
qed

lemma processQueue_capacity:
  "length (activeChecks (processQueue now w)) \<le> max (length (activeChecks w)) (maxConcurrent w)"
  unfolding processQueue_def
  using capacity_drain [of now "w\<lparr>queue := younger now (queue w)\<rparr>"] by simp

text \<open>
  Claim C6. A drain at time \<open>now\<close> keeps the queue entries younger than 30 seconds and
  invokes exactly a prefix of them in queue order: each invoked entry found the active
  map below \<open>maxConcurrent\<close>, and the loop stopped on an empty queue or a full active
  map, so that the active map is afterwards no larger than \<open>maxConcurrent\<close> unless it
  already was. The drain settles no promise. In a world with unique identities, an
  entry aged 30 seconds or more is gone from the queue, and in no continuation of the
  run is its task ever among the executing ones or its caller's promise among the
  settled ones.
\<close>

theorem processQueue_drops_stale:
  "(\<exists>k. k \<le> length (younger now (queue w))
        \<and> processQueue now w
            = (after_starts now (take k (younger now (queue w))) w)
                \<lparr>queue := drop k (younger now (queue w))\<rparr>
        \<and> queue (processQueue now w) = drop k (younger now (queue w))
        \<and> executing (processQueue now w)
            = executing w @ map q_task (take k (younger now (queue w)))
        \<and> (\<forall>j<k. length (activeChecks (after_starts now (take j (younger now (queue w))) w))
                     < maxConcurrent w)
        \<and> (queue (processQueue now w) = []
            \<or> \<not> length (activeChecks (processQueue now w)) < maxConcurrent (processQueue now w)))
   \<and> length (activeChecks (processQueue now w)) \<le> max (length (activeChecks w)) (maxConcurrent w)
   \<and> settled (processQueue now w) = settled w
   \<and> (unique_ids w \<and> e \<in> set (queue w) \<and> 30000 \<le> now - addedTime e \<longrightarrow>
        e \<notin> set (queue (processQueue now w))
        \<and> (\<forall>evs. qid e \<notin> t_id ` set (executing (run evs (processQueue now w)))
                \<and> qid e \<notin> fst ` set (settled (run evs (processQueue now w)))))"
proof (intro conjI impI allI)
  let ?fresh = "younger now (queue w)"
  obtain k where k: "k \<le> length ?fresh"
    "processQueue now w = (after_starts now (take k ?fresh) w)\<lparr>queue := drop k ?fresh\<rparr>"
    "\<forall>j<k. length (activeChecks (after_starts now (take j ?fresh) w)) < maxConcurrent w"
    "k = length ?fresh \<or> \<not> length (activeChecks (processQueue now w)) < maxConcurrent w"
    using processQueue_exact [of now w] by blast
  have q: "queue (processQueue now w) = drop k ?fresh"
    and x: "executing (processQueue now w) = executing w @ map q_task (take k ?fresh)"
    and m: "maxConcurrent (processQueue now w) = maxConcurrent w"
    and s: "settled (processQueue now w) = settled w"
    by (simp_all add: k(2))
  from k(4) q m have stop: "queue (processQueue now w) = []
      \<or> \<not> length (activeChecks (processQueue now w)) < maxConcurrent (processQueue now w)"
    by auto
  from k(1,2,3) q x stop
  show "\<exists>k. k \<le> length ?fresh
        \<and> processQueue now w = (after_starts now (take k ?fresh) w)\<lparr>queue := drop k ?fresh\<rparr>
        \<and> queue (processQueue now w) = drop k ?fresh
        \<and> executing (processQueue now w) = executing w @ map q_task (take k ?fresh)
        \<and> (\<forall>j<k. length (activeChecks (after_starts now (take j ?fresh) w)) < maxConcurrent w)
        \<and> (queue (processQueue now w) = []
            \<or> \<not> length (activeChecks (processQueue now w)) < maxConcurrent (processQueue now w))"
    by blast
  show "length (activeChecks (processQueue now w)) \<le> max (length (activeChecks w)) (maxConcurrent w)"
    by (rule processQueue_capacity)
  from s show "settled (processQueue now w) = settled w" .
  {
    assume a: "unique_ids w \<and> e \<in> set (queue w) \<and> 30000 \<le> now - addedTime e"
    then have ab: "absent (qid e) (processQueue now w)"
      using processQueue_absent by blast
    from a have "e \<notin> set ?fresh" by simp
    with q show "e \<notin> set (queue (processQueue now w))"
      by (auto dest: in_set_dropD)
    fix evs
    from ab show "qid e \<notin> t_id ` set (executing (run evs (processQueue now w)))"
      by (rule absent_never(1))
    from ab show "qid e \<notin> fst ` set (settled (run evs (processQueue now w)))"
      by (rule absent_never(2))
  }
qed

lemma timer_is_drain: "step (Timer 0 30010) waiting = processQueue 30010 before_drain"
  by code_simp

lemma before_drain_unique: "unique_ids before_drain"
  by code_simp

lemma stale_queued: "stale \<in> set (queue before_drain)"
  by code_simp

lemma before_drain_drained:
  "map q_url (queue before_drain) = [''b'', ''c'']"
  "queue (processQueue 30010 before_drain) = []"
  "map t_url (executing (processQueue 30010 before_drain)) = [''c'']"
  by code_simp+

lemma before_drain_slots:
  "length (activeChecks before_drain) = 0"
  "maxConcurrent before_drain = 1"
  by code_simp+

lemma crowded_one_start:
  "map t_url (executing (run crowded (newController (Some 1) 0))) = [''b'']
   \<and> map q_url (queue (run crowded (newController (Some 1) 0))) = [''c'', ''d'']
   \<and> length (activeChecks (run crowded (newController (Some 1) 0))) = 1"
  by code_simp

theorem processQueue_drops_stale_witness:
  "unique_ids before_drain \<and> stale \<in> set (queue before_drain)
   \<and> 30000 \<le> 30010 - addedTime stale
   \<and> map q_url (queue before_drain) = [''b'', ''c'']
   \<and> queue (processQueue 30010 before_drain) = []
   \<and> map t_url (executing (processQueue 30010 before_drain)) = [''c'']
   \<and> length (activeChecks (processQueue 30010 before_drain)) \<le> 1
   \<and> 1 \<notin> fst ` set (settled (run [Settle 1 (Resolved ()) 30020, Settle 2 (Resolved ()) 30030,
                                     Timer 2 30200] (processQueue 30010 before_drain)))"
proof -
  have old: "30000 \<le> 30010 - addedTime stale" by (simp add: stale_def)
  have q: "qid stale = 1" by (simp add: qid_def stale_def)
  note c6 = processQueue_drops_stale [of 30010 before_drain stale]
  from c6 before_drain_unique stale_queued old
  have "\<forall>evs. qid stale \<notin> fst ` set (settled (run evs (processQueue 30010 before_drain)))"
    by blast
  moreover from c6 have "length (activeChecks (processQueue 30010 before_drain))
      \<le> max (length (activeChecks before_drain)) (maxConcurrent before_drain)"
    by blast
  ultimately show ?thesis
    using before_drain_unique stale_queued old before_drain_drained before_drain_slots q
    by simp
qed

subsection \<open>The bound and the counters in runs without a reset\<close>

text \<open>
  As long as no call resets and no two live tasks share a key, the executing check
  functions are at most \<open>maxConcurrent\<close> and the completions at most the starts.
\<close>

lemma drain_preserves:
  assumes s: "\<And>now w item rest. P w \<Longrightarrow> queue w = item # rest
      \<Longrightarrow> length (activeChecks w) < maxConcurrent w
      \<Longrightarrow> P (runTask (q_task item) now (w\<lparr>queue := rest\<rparr>))"
  shows "P w \<Longrightarrow> P (drain now w)"
proof (induction now w rule: drain.induct)
  case (1 now w)
  show ?case
  proof (cases "queue w")
    case Nil
    with "1.prems" show ?thesis by (simp add: drain.simps [of now w])
  next
    case (Cons item rest)
    show ?thesis
    proof (cases "length (activeChecks w) < maxConcurrent w")
      case False
      with Cons "1.prems" show ?thesis by (simp add: drain.simps [of now w])
    next
      case True
      have "P (runTask (q_task item) now (w\<lparr>queue := rest\<rparr>))"
        using "1.prems" Cons True by (rule s)
      then have "P (drain now (runTask (q_task item) now (w\<lparr>queue := rest\<rparr>)))"
        using "1.IH" [OF Cons True] by simp
      with Cons True show ?thesis by (simp add: drain.simps [of now w])
    qed
  qed
qed

lemma balanced_runTask: "balanced w \<Longrightarrow> balanced (runTask t now (w\<lparr>queue := q\<rparr>))"
  by (simp add: balanced_def runTask_def Let_def)

lemma balanced_drain: "balanced w \<Longrightarrow> balanced (drain now w)"
  using drain_preserves [where P = balanced and now = now and w = w] balanced_runTask by blast

lemma balanced_processQueue: "balanced w \<Longrightarrow> balanced (processQueue now w)"
  unfolding processQueue_def by (rule balanced_drain) (simp add: balanced_def)

lemma balanced_step:
  assumes "balanced w" and "calm_turn ev w"
  shows "balanced (step ev w)"
proof (cases ev)
  case (Call url rid now)
  with assms(2) have "scheduleCheck url rid now w = admit url rid now w"
    by (simp add: calm_turn_def scheduleCheck_def)
  with Call assms(1) show ?thesis
    by (simp add: admit_def Let_def balanced_def runTask_def)
next
  case (Settle i out now)
  show ?thesis
  proof (cases "find (\<lambda>t. t_id t = i) (executing w)")
    case None
    with Settle assms(1) show ?thesis by simp
  next
    case (Some t)
    then have "t \<in> set (executing w)" by (rule find_executing)
    then have "length (remove1 t (executing w)) + 1 = length (executing w)"
      using length_pos_if_in_set [of t "executing w"] by (simp add: length_remove1)
    with Settle Some assms(1) show ?thesis
      by (simp add: balanced_def settleTask_def Let_def split: outcome.splits)
  qed
next
  case (Timer i now)
  show ?thesis
  proof (cases "find (\<lambda>(t, due). t_id t = i \<and> due \<le> now) (timers w)")
    case None
    with Timer assms(1) show ?thesis by simp
  next
    case (Some p)
    then have "p \<in> set (timers w)" by (metis find_Some_iff nth_mem)
    then have l: "length (remove1 p (timers w)) + 1 = length (timers w)"
      using length_pos_if_in_set [of p "timers w"] by (simp add: length_remove1)
    have "balanced (w\<lparr>timers := remove1 p (timers w),
        activeChecks := AList.delete (t_key (fst p)) (activeChecks w),
        stats := (stats w)\<lparr>totalCompleted := totalCompleted (stats w) + 1\<rparr>\<rparr>)"
      using assms(1) l by (simp add: balanced_def)
    then have "balanced (cleanup (fst p) now (w\<lparr>timers := remove1 p (timers w)\<rparr>))"
      unfolding cleanup_def using balanced_processQueue by fastforce
    with Timer Some show ?thesis by (cases p) simp
  qed
qed

lemma balanced_run: "balanced w \<Longrightarrow> calm evs w \<Longrightarrow> balanced (run evs w)"
  unfolding run_def by (induction evs arbitrary: w) (simp_all add: balanced_step)

lemma balanced_new: "balanced (newController config t0)"
  by (simp add: balanced_def newController_def freshStats_def)

lemma completed_le_started_without_reset:
  "calm evs (newController config t0) \<Longrightarrow>
     totalCompleted (stats (run evs (newController config t0)))
       \<le> totalStarted (stats (run evs (newController config t0)))"
  using balanced_run [OF balanced_new, of evs config t0] by (simp add: balanced_def)

lemma find_in_set: "find P xs = Some x \<Longrightarrow> x \<in> set xs"
  by (metis find_Some_iff nth_mem)

lemma dom_delete: "fst ` set (AList.delete k al) = fst ` set al - {k}"
  by (induction al) auto

lemma slots_bound:
  assumes "slots_ok w"
  shows "length (executing w) \<le> maxConcurrent w"
proof -
  from assms have d: "distinct (map t_key (executing w))"
    and s: "set (map t_key (executing w)) \<subseteq> set (map fst (activeChecks w))"
    and l: "length (activeChecks w) \<le> maxConcurrent w"
    by (simp_all add: slots_ok_def task_keys_def)
  from d have "length (executing w) = card (set (map t_key (executing w)))"
    using distinct_card [of "map t_key (executing w)"] by simp
  also from s have "\<dots> \<le> card (set (map fst (activeChecks w)))"
    by (rule card_mono [OF finite_set])
  also have "\<dots> \<le> length (activeChecks w)"
    using card_length [of "map fst (activeChecks w)"] by simp
  finally show ?thesis using l by simp
qed

lemma slots_ok_runTask:
  assumes "slots_ok w" and "queue w = item # rest"
    and "length (activeChecks w) < maxConcurrent w"
  shows "slots_ok (runTask (q_task item) now (w\<lparr>queue := rest\<rparr>))"
  using assms
  by (auto simp: slots_ok_def task_keys_def runTask_def Let_def dom_update length_update)

lemma slots_ok_drain: "slots_ok w \<Longrightarrow> slots_ok (drain now w)"
  using drain_preserves [where P = slots_ok and now = now and w = w] slots_ok_runTask
  by blast

lemma slots_ok_processQueue:
  assumes "slots_ok w"
  shows "slots_ok (processQueue now w)"
proof -
  from assms have "slots_ok (w\<lparr>queue := filter (\<lambda>item. now - addedTime item < 30000) (queue w)\<rparr>)"
    by (auto simp: slots_ok_def task_keys_def distinct_map_filter)
  then show ?thesis unfolding processQueue_def by (rule slots_ok_drain)
qed

lemma slots_ok_admit:
  assumes "slots_ok w" and "(url, now) \<notin> set (task_keys w)"
  shows "slots_ok (admit url rid now w)"
  using assms
  by (auto simp: slots_ok_def task_keys_def admit_def runTask_def Let_def dom_update
      length_update)

lemma slots_ok_settleTask:
  assumes "slots_ok w" and t: "t \<in> set (executing w)"
  shows "slots_ok (settleTask t out now w)"
proof -
  from t obtain xs ys where xy: "executing w = xs @ t # ys" "t \<notin> set xs"
    by (meson split_list_first)
  then have r: "remove1 t (executing w) = xs @ ys" by (simp add: remove1_append)
  from assms have k: "t_key t \<in> fst ` set (activeChecks w)"
    by (auto simp: slots_ok_def)
  have u: "fst ` set (AList.update (t_key t) v (activeChecks w)) = fst ` set (activeChecks w)"
    "length (AList.update (t_key t) v (activeChecks w)) = length (activeChecks w)" for v
    using k by (simp_all add: dom_update length_update insert_absorb)
  have f: "queue (settleTask t out now w) = queue w"
    "executing (settleTask t out now w) = xs @ ys"
    "timers (settleTask t out now w) = timers w @ [(t, now + 100)]"
    "maxConcurrent (settleTask t out now w) = maxConcurrent w"
    "fst ` set (activeChecks (settleTask t out now w)) = fst ` set (activeChecks w)"
    "length (activeChecks (settleTask t out now w)) = length (activeChecks w)"
    by (simp_all add: settleTask_def Let_def u r split: outcome.splits)
  from assms(1) show ?thesis
    unfolding slots_ok_def task_keys_def by (auto simp: f xy(1))
qed

lemma slots_ok_cleanup:
  assumes "slots_ok w" and p: "p \<in> set (timers w)"
  shows "slots_ok (cleanup (fst p) now (w\<lparr>timers := remove1 p (timers w)\<rparr>))"
proof -
  from p obtain xs ys where xy: "timers w = xs @ p # ys" "p \<notin> set xs"
    by (meson split_list_first)
  then have r: "remove1 p (timers w) = xs @ ys" by (simp add: remove1_append)
  from assms(1) have "slots_ok (w\<lparr>timers := remove1 p (timers w),
        activeChecks := AList.delete (t_key (fst p)) (activeChecks w),
        stats := (stats w)\<lparr>totalCompleted := totalCompleted (stats w) + 1\<rparr>\<rparr>)"
    unfolding slots_ok_def task_keys_def r
    using length_delete_le [of "t_key (fst p)" "activeChecks w"]
    by (auto simp: xy(1) dom_delete)
  then show ?thesis
    unfolding cleanup_def using slots_ok_processQueue by fastforce
qed

lemma slots_ok_step:
  assumes "slots_ok w" and "calm_turn ev w"
  shows "slots_ok (step ev w)"
proof (cases ev)
  case (Call url rid now)
  with assms(2) have "scheduleCheck url rid now w = admit url rid now w"
    and "(url, now) \<notin> set (task_keys w)"
    by (simp_all add: calm_turn_def scheduleCheck_def)
  with Call assms(1) show ?thesis by (simp add: slots_ok_admit)
next
  case (Settle i out now)
  with assms(1) show ?thesis
    by (auto split: option.splits dest: find_in_set intro: slots_ok_settleTask)
next
  case (Timer i now)
  show ?thesis
  proof (cases "find (\<lambda>(t, due). t_id t = i \<and> due \<le> now) (timers w)")
    case None
    with Timer assms(1) show ?thesis by simp
  next
    case (Some p)
    then have "p \<in> set (timers w)" by (rule find_in_set)
    with assms(1) have "slots_ok (cleanup (fst p) now (w\<lparr>timers := remove1 p (timers w)\<rparr>))"
      by (rule slots_ok_cleanup)
    with Timer Some show ?thesis by (cases p) simp
  qed
qed

lemma slots_ok_run: "slots_ok w \<Longrightarrow> calm evs w \<Longrightarrow> slots_ok (run evs w)"
  unfolding run_def by (induction evs arbitrary: w) (simp_all add: slots_ok_step)

lemma slots_ok_new: "slots_ok (newController config t0)"
  by (simp add: slots_ok_def task_keys_def newController_def)

lemma bound_holds_without_reset:
  "calm evs (newController config t0) \<Longrightarrow>
     length (executing (run evs (newController config t0)))
       \<le> maxConcurrent (run evs (newController config t0))"
  using slots_ok_run [OF slots_ok_new, of evs config t0] by (rule slots_bound)

lemma calm_example:
  "calm [Call ''a'' ''r1'' 0, Call ''b'' ''r2'' 5, Call ''c'' ''r3'' 29000,
         Settle 0 (Resolved ()) 100, Timer 0 30010] (newController (Some 1) 0)"
  by code_simp

subsection \<open>In-flight tasks across a reset\<close>

lemma overload_max: "maxConcurrent (run overload (newController (Some 5) 0)) = 5"
  by code_simp

lemma overload_executing:
  "map t_url (executing (run overload (newController (Some 5) 0)))
     = [''u1'', ''u2'', ''u3'', ''u4'', ''u5'', ''u6'']"
  by code_simp

lemma overload_count: "length (executing (run overload (newController (Some 5) 0))) = 6"
  by code_simp

lemma overload_active:
  "map fst (activeChecks (run overload (newController (Some 5) 0))) = [(''u6'', 300001)]"
  by code_simp

text \<open>
  Claim C1. On a controller with five slots, five calls at 300000 ms are all
  admitted; the call at 300001 ms resets, which empties the active map under the five
  running tasks, and is admitted as well: six check functions execute at once.
\<close>

theorem admission_bound_exceeded_after_reset:
  "maxConcurrent (run overload (newController (Some 5) 0)) = 5
   \<and> map t_url (executing (run overload (newController (Some 5) 0)))
       = [''u1'', ''u2'', ''u3'', ''u4'', ''u5'', ''u6'']
   \<and> length (executing (run overload (newController (Some 5) 0))) = 6
   \<and> map fst (activeChecks (run overload (newController (Some 5) 0))) = [(''u6'', 300001)]"
  using overload_max overload_executing overload_count overload_active
  by (intro conjI)

text \<open>
  The bound is also passed without any reset, by calls for one target within one
  millisecond: they share their key, so the active map does not grow.
\<close>

lemma same_key_exceeds_bound:
  "length (executing (run same_key (newController (Some 2) 0))) = 3
   \<and> length (activeChecks (run same_key (newController (Some 2) 0))) = 1"
  by code_simp

lemma crossing_stats:
  "stats (run crossing (newController (Some 5) 0)) =
     \<lparr>totalStarted = 1, totalCompleted = 2, maxActive = 1, errors = 0, successes = 2,
      lastReset = 300001, lastResetTime = 300001\<rparr>"
  by code_simp

lemma crossing_window:
  "lastResetTime (stats (run (take 2 crossing) (newController (Some 5) 0))) = 300001"
  by code_simp

text \<open>
  Claim C2. The task started at 300000 ms is in flight when the call at 300001 ms
  resets the counters. No reset follows, and after both cleanups the window that began
  at 300001 ms has counted one start and two completions.
\<close>

theorem completed_exceeds_started_after_reset:
  "lastResetTime (stats (run (take 2 crossing) (newController (Some 5) 0))) = 300001
   \<and> lastResetTime (stats (run crossing (newController (Some 5) 0))) = 300001
   \<and> totalStarted (stats (run crossing (newController (Some 5) 0))) = 1
   \<and> totalCompleted (stats (run crossing (newController (Some 5) 0))) = 2"
  using crossing_window by (simp add: crossing_stats)

end
